theory Spec2Isabelle
  imports Main "HOL-Library.Char_ord" "HOL-Library.List_Lexorder" "HOL-Library.Sublist"
begin

section \<open>Data model\<close>

text \<open>The struct \<open>TableInfo\<close> of \<open>GetTable.cpp\<close>: both fields are byte strings
  (\<open>std::string\<close>), the text being UTF-8.\<close>

record TableInfo =
  number :: string
  title :: string

section \<open>Order validator\<close>

text \<open>\<open>std::string::compare\<close>: the bytes are compared as unsigned values up to the
  shorter length, then the lengths decide. Only the sign of the result is used.\<close>

fun string_compare :: "string \<Rightarrow> string \<Rightarrow> int" where
  "string_compare [] [] = 0"
| "string_compare [] (y # ys) = - 1"
| "string_compare (x # xs) [] = 1"
| "string_compare (x # xs) (y # ys) =
     (if (of_char x :: nat) < of_char y then - 1
      else if (of_char y :: nat) < of_char x then 1
      else string_compare xs ys)"

text \<open>\<open>operator<=\<close> on \<open>std::string\<close>.\<close>

definition string_le :: "string \<Rightarrow> string \<Rightarrow> bool" where
  "string_le a b = (string_compare a b \<le> 0)"

text \<open>The range-based \<open>for\<close> loop of \<open>findMisorderedTables\<close> in \<open>GetTable.cpp\<close>, with
  its two local variables \<open>misordered\<close> and \<open>prevNumber\<close> passed as state.\<close>

fun findMisordered_loop :: "TableInfo list \<Rightarrow> string list \<Rightarrow> string \<Rightarrow> string list" where
  "findMisordered_loop [] misordered prevNumber = misordered"
| "findMisordered_loop (table # tables) misordered prevNumber =
     findMisordered_loop tables
       (if string_le (number table) prevNumber
        then (misordered @ [number table]) @ [prevNumber]
        else misordered)
       (number table)"

definition findMisorderedTables :: "TableInfo list \<Rightarrow> string list" where
  "findMisorderedTables tables = findMisordered_loop tables [] ''0''"

text \<open>The same function as the two earlier variants of the program have it
  (\<open>part_000\<close> and \<open>part_001\<close>): only \<open>prevNumber\<close> is pushed.\<close>

fun findMisordered_loop_part_000 :: "TableInfo list \<Rightarrow> string list \<Rightarrow> string \<Rightarrow> string list" where
  "findMisordered_loop_part_000 [] misordered prevNumber = misordered"
| "findMisordered_loop_part_000 (table # tables) misordered prevNumber =
     findMisordered_loop_part_000 tables
       (if string_le (number table) prevNumber
        then misordered @ [prevNumber]
        else misordered)
       (number table)"

definition findMisorderedTables_part_000 :: "TableInfo list \<Rightarrow> string list" where
  "findMisorderedTables_part_000 tables = findMisordered_loop_part_000 tables [] ''0''"

fun findMisordered_loop_part_001 :: "TableInfo list \<Rightarrow> string list \<Rightarrow> string \<Rightarrow> string list" where
  "findMisordered_loop_part_001 [] misordered prevNumber = misordered"
| "findMisordered_loop_part_001 (table # tables) misordered prevNumber =
     findMisordered_loop_part_001 tables
       (if string_le (number table) prevNumber
        then misordered @ [prevNumber]
        else misordered)
       (number table)"

definition findMisorderedTables_part_001 :: "TableInfo list \<Rightarrow> string list" where
  "findMisorderedTables_part_001 tables = findMisordered_loop_part_001 tables [] ''0''"

text \<open>The reference fold of the specification, written from its words: a cursor that
  starts at \<open>''0''\<close>, the lexicographic order of strings (here the order of
  \<open>HOL-Library.List_Lexorder\<close> over the byte order of \<open>HOL-Library.Char_ord\<close>), two
  entries appended for each violation, and the cursor moved after every comparison.\<close>

definition spec_step :: "TableInfo \<Rightarrow> string \<times> string list \<Rightarrow> string \<times> string list" where
  "spec_step r = (\<lambda>(cursor, out).
     (number r, if number r \<le> cursor then out @ [number r, cursor] else out))"

definition spec_findMisordered :: "TableInfo list \<Rightarrow> string list" where
  "spec_findMisordered rs = snd (fold spec_step rs (''0'', []))"

text \<open>Every second entry of a list (the entries at odd positions, counted from 0).\<close>

fun seconds :: "'a list \<Rightarrow> 'a list" where
  "seconds (x # y # zs) = y # seconds zs"
| "seconds _ = []"

section \<open>Regular expressions\<close>

text \<open>The part of the ECMAScript grammar of \<open><regex>\<close> that the pattern of
  \<open>extractTableInfo\<close> uses, over bytes (\<open>std::regex\<close> is \<open>basic_regex<char>\<close>):
  ordinary characters, character classes, concatenation, the greedy quantifiers \<open>*\<close>,
  \<open>+\<close> and \<open>?\<close>, the non-greedy \<open>*?\<close>, and capture groups. A non-capturing group
  \<open>(?:r)\<close> is \<open>r\<close> itself.\<close>

datatype regex =
    Eps
  | Chr char
  | Cls "char \<Rightarrow> bool"
  | Seq regex regex
  | Star regex
  | LazyStar regex
  | Opt regex
  | Group nat regex

text \<open>\<open>r+\<close> is one \<open>r\<close> and then \<open>r*\<close>.\<close>

definition Plus :: "regex \<Rightarrow> regex" where
  "Plus r = Seq r (Star r)"

text \<open>A sequence of ordinary characters.\<close>

fun lits :: "string \<Rightarrow> regex" where
  "lits [] = Eps"
| "lits (c # cs) = Seq (Chr c) (lits cs)"

text \<open>The sub-matches of a match: \<open>None\<close> for a group that did not take part.\<close>

type_synonym captures = "nat \<Rightarrow> string option"

text \<open>A matcher state is the input that remains and the sub-matches so far.\<close>

type_synonym mstate = "string \<times> captures"

text \<open>The backtracking matcher, in the form in which the ECMAScript standard defines
  it: \<open>matcher r c st\<close> matches \<open>r\<close> from the state \<open>st\<close> and hands the state
  reached to the continuation \<open>c\<close>, which matches the rest of the pattern; when the
  continuation fails (\<open>None\<close>) the matcher backtracks to its next alternative. A greedy
  quantifier tries one more iteration before it tries to stop, a non-greedy one tries to
  stop first; an iteration that consumes nothing is rejected. (The pattern of the program
  has no group under a quantifier that repeats, so the clearing of sub-matches at each
  iteration is not modelled.)\<close>

function matcher :: "regex \<Rightarrow> (mstate \<Rightarrow> mstate option) \<Rightarrow> mstate \<Rightarrow> mstate option" where
  "matcher Eps c st = c st"
| "matcher (Chr ch) c st =
     (case fst st of [] \<Rightarrow> None | x # xs \<Rightarrow> if x = ch then c (xs, snd st) else None)"
| "matcher (Cls P) c st =
     (case fst st of [] \<Rightarrow> None | x # xs \<Rightarrow> if P x then c (xs, snd st) else None)"
| "matcher (Seq a b) c st = matcher a (\<lambda>st'. matcher b c st') st"
| "matcher (Star a) c st =
     (case matcher a
        (\<lambda>st'. if length (fst st') < length (fst st) then matcher (Star a) c st' else None) st
      of Some r \<Rightarrow> Some r | None \<Rightarrow> c st)"
| "matcher (LazyStar a) c st =
     (case c st of
        Some r \<Rightarrow> Some r
      | None \<Rightarrow> matcher a
          (\<lambda>st'. if length (fst st') < length (fst st) then matcher (LazyStar a) c st' else None)
          st)"
| "matcher (Opt a) c st =
     (case matcher a (\<lambda>st'. if length (fst st') < length (fst st) then c st' else None) st
      of Some r \<Rightarrow> Some r | None \<Rightarrow> c st)"
| "matcher (Group n a) c st =
     matcher a
       (\<lambda>st'. c (fst st', (snd st')(n \<mapsto> take (length (fst st) - length (fst st')) (fst st))))
       st"
  by pat_completeness auto
termination
  by (relation "inv_image (less_than <*lex*> less_than) (\<lambda>(r, c, st). (size r, length (fst st)))")
    auto

declare matcher.simps [simp del]

text \<open>A match that starts at the very beginning of \<open>s\<close>: the whole pattern is matched
  with the continuation that accepts every state. Sub-match 0 is the whole match.\<close>

definition match_here :: "regex \<Rightarrow> string \<Rightarrow> captures option" where
  "match_here r s =
     (case matcher r (\<lambda>st. Some st) (s, Map.empty) of
        None \<Rightarrow> None
      | Some st \<Rightarrow> Some ((snd st)(0 \<mapsto> take (length s - length (fst st)) s)))"

text \<open>\<open>std::regex_search\<close>: the match at the leftmost position where there is one.
  The result is the \<open>smatch\<close> when the call returns true.\<close>

fun regex_search :: "string \<Rightarrow> regex \<Rightarrow> captures option" where
  "regex_search [] r = match_here r []"
| "regex_search (c # s) r =
     (case match_here r (c # s) of Some m \<Rightarrow> Some m | None \<Rightarrow> regex_search s r)"

text \<open>\<open>match.str(n)\<close>: the empty string for a group that did not take part.\<close>

definition match_str :: "captures \<Rightarrow> nat \<Rightarrow> string" where
  "match_str m n = (case m n of None \<Rightarrow> [] | Some s \<Rightarrow> s)"

section \<open>Trimming\<close>

text \<open>\<open>isspace\<close> of \<open><cctype>\<close> in the "C" locale (the program never calls
  \<open>setlocale\<close>): space, and the control characters 9 to 13.\<close>

definition isspace :: "char \<Rightarrow> bool" where
  "isspace ch = (ch = CHR '' '' \<or> ch = CHR 0x09 \<or> ch = CHR 0x0A \<or> ch = CHR 0x0B
     \<or> ch = CHR 0x0C \<or> ch = CHR 0x0D)"

text \<open>\<open>std::find_if\<close> over a range, as the offset of the iterator it returns from the
  start of the range (the length of the range when nothing is found).\<close>

fun find_if :: "('a \<Rightarrow> bool) \<Rightarrow> 'a list \<Rightarrow> nat" where
  "find_if P [] = 0"
| "find_if P (c # cs) = (if P c then 0 else Suc (find_if P cs))"

text \<open>\<open>s.erase(first, last)\<close> with the two iterators as offsets.\<close>

definition erase :: "'a list \<Rightarrow> nat \<Rightarrow> nat \<Rightarrow> 'a list" where
  "erase s i_first i_last = take i_first s @ drop i_last s"

text \<open>\<open>trim\<close>: the second search runs over the reversed string, and \<open>.base()\<close> of the
  reverse iterator found at offset \<open>k\<close> is the offset \<open>length s - k\<close>.\<close>

definition trim :: "string \<Rightarrow> string" where
  "trim str =
     (let s = str;
          s = erase s 0 (find_if (\<lambda>ch. \<not> isspace ch) s);
          s = erase s (length s - find_if (\<lambda>ch. \<not> isspace ch) (rev s)) (length s)
      in s)"

section \<open>Caption extractor\<close>

text \<open>The character classes of the pattern. \<open>\s\<close> is the class \<open>space\<close> of the
  classic locale, the same characters as \<open>isspace\<close>; \<open>\d\<close> is a decimal digit; \<open>.\<close>
  matches every character but the line terminators.\<close>

definition isdigit :: "char \<Rightarrow> bool" where
  "isdigit ch = (ch \<in> set ''0123456789'')"

definition digit_or_period :: "char \<Rightarrow> bool" where
  "digit_or_period ch = (isdigit ch \<or> ch = CHR ''.'')"

definition any_char :: "char \<Rightarrow> bool" where
  "any_char ch = (ch \<noteq> CHR 0x0A \<and> ch \<noteq> CHR 0x0D)"

text \<open>The marker word of the pattern, in the UTF-8 bytes of the source file: the seven
  Cyrillic letters U+0422 U+0430 U+0431 U+043B U+0438 U+0446 U+0430.\<close>

definition marker :: string where
  "marker = [CHR 0xD0, CHR 0xA2, CHR 0xD0, CHR 0xB0, CHR 0xD0, CHR 0xB1, CHR 0xD0, CHR 0xBB,
     CHR 0xD0, CHR 0xB8, CHR 0xD1, CHR 0x86, CHR 0xD0, CHR 0xB0]"

text \<open>The optional tail \<open>(?:\s+.*?\s+(.*))?\<close> of the pattern, without its \<open>?\<close>.\<close>

definition titlePart :: regex where
  "titlePart =
     Seq (Plus (Cls isspace))
       (Seq (LazyStar (Cls any_char))
         (Seq (Plus (Cls isspace)) (Group 2 (Star (Cls any_char)))))"

text \<open>\<open>tablePattern\<close>: marker, \<open>\s+\<close>, \<open>([\d.]+)\<close>, and the optional tail.\<close>

definition tablePattern :: regex where
  "tablePattern =
     Seq (lits marker)
       (Seq (Plus (Cls isspace))
         (Seq (Group 1 (Plus (Cls digit_or_period))) (Opt titlePart)))"

text \<open>\<open>std::getline\<close> on a stream that is not at its end: the line up to the first
  newline, and the stream after that newline.\<close>

fun getline :: "string \<Rightarrow> string \<times> string" where
  "getline [] = ([], [])"
| "getline (c # cs) =
     (if c = CHR 0x0A then ([], cs) else (let (line, ss) = getline cs in (c # line, ss)))"

lemma getline_le: "length (snd (getline ss)) \<le> length ss"
  by (induction ss) (auto split: prod.splits)

lemma getline_shorter: "ss \<noteq> [] \<Longrightarrow> length (snd (getline ss)) < length ss"
  using getline_le [of "tl ss"] by (cases ss) (auto split: prod.splits)

text \<open>The \<open>while (getline(ss, line))\<close> loop of \<open>extractTableInfo\<close>: \<open>getline\<close> fails,
  and the loop ends, when the stream is already at its end.\<close>

function extract_loop :: "string \<Rightarrow> TableInfo list \<Rightarrow> TableInfo list" where
  "extract_loop ss tables =
     (if ss = [] then tables
      else let (line, ss') = getline ss in
        extract_loop ss'
          (case regex_search line tablePattern of
             Some match \<Rightarrow> tables @ [\<lparr>number = match_str match 1, title = match_str match 2\<rparr>]
           | None \<Rightarrow> tables))"
  by pat_completeness auto
termination
proof (relation "measure (\<lambda>(ss, tables). length ss)")
  fix ss :: string and tables tables' :: "TableInfo list" and x line ss'
  assume "ss \<noteq> []" and "x = getline ss" and "(line, ss') = x"
  then have "length ss' < length ss"
    using getline_shorter [of ss] by (metis snd_conv)
  then show "((ss', tables'), (ss, tables)) \<in> measure (\<lambda>(ss, tables). length ss)"
    by simp
qed simp

declare extract_loop.simps [simp del]

definition extractTableInfo :: "string \<Rightarrow> TableInfo list" where
  "extractTableInfo text = extract_loop text []"





text \<open>\<open>std::replace(first, last, old, new)\<close> over a string.\<close>

fun replace :: "string \<Rightarrow> char \<Rightarrow> char \<Rightarrow> string" where
  "replace [] old_value new_value = []"
| "replace (c # cs) old_value new_value =
     (if c = old_value then new_value else c) # replace cs old_value new_value"

text \<open>The part of \<open>main\<close> between the recognition and the printing: the recognised text
  goes through \<open>replace\<close>, \<open>extractTableInfo\<close> and \<open>findMisorderedTables\<close>.\<close>

definition main_core :: "string \<Rightarrow> TableInfo list \<times> string list" where
  "main_core outText =
     (let text = replace outText (CHR ''|'') (CHR ''1'');
          tables = extractTableInfo text;
          misorderedTables = findMisorderedTables tables
      in (tables, misorderedTables))"

section \<open>What the pattern computes\<close>

text \<open>The functions of this section describe the result of the pattern without the
  matcher, as a scan for the marker followed by runs of characters; the lemmas
  \<open>match_here_tablePattern\<close> and \<open>regex_search_tablePattern\<close> below prove that the
  matcher computes exactly this.

  \<open>title_after v\<close> is sub-match 2 for the text \<open>v\<close> that follows the identifier
  (\<open>None\<close> when the optional tail does not match). The tail needs a run of whitespace,
  then as few characters as possible, then a run of whitespace again, and captures what
  follows up to a line terminator. When \<open>v\<close> has whitespace again after its first
  run of whitespace, the first word is skipped and the capture starts after the second
  run; when it has none, the tail can only match by giving the last character of the
  first run to the second \<open>\s+\<close>, which needs a first run of two characters.\<close>

definition title_after :: "string \<Rightarrow> string option" where
  "title_after v =
     (let r1 = dropWhile isspace v in
      if length r1 = length v then None
      else if list_ex isspace r1 then
        Some (takeWhile any_char (dropWhile isspace (dropWhile (\<lambda>ch. \<not> isspace ch) r1)))
      else if 2 \<le> length v - length r1 then Some r1
      else None)"

text \<open>\<open>match.str(2)\<close> for the text after the identifier.\<close>

definition title_of :: "string \<Rightarrow> string" where
  "title_of rest = (case title_after rest of None \<Rightarrow> [] | Some t \<Rightarrow> t)"

text \<open>A match of the pattern at the very beginning of \<open>s\<close>: the identifier and the
  title.\<close>

definition caption_at :: "string \<Rightarrow> (string \<times> string) option" where
  "caption_at s =
     (if prefix marker s then
        let a = drop (length marker) s;
            r = dropWhile isspace a
        in if a \<noteq> [] \<and> isspace (hd a) \<and> r \<noteq> [] \<and> digit_or_period (hd r)
           then Some (takeWhile digit_or_period r,
                      title_of (dropWhile digit_or_period r))
           else None
      else None)"

text \<open>The match at the leftmost position of the line where there is one.\<close>

fun first_caption :: "string \<Rightarrow> (string \<times> string) option" where
  "first_caption [] = caption_at []"
| "first_caption (c # s) =
     (case caption_at (c # s) of Some r \<Rightarrow> Some r | None \<Rightarrow> first_caption s)"

text \<open>The lines that the loop of \<open>extractTableInfo\<close> reads from the stream, in
  order: the successive results of \<open>getline\<close>.\<close>

function stream_lines :: "string \<Rightarrow> string list" where
  "stream_lines ss =
     (if ss = [] then [] else let (line, ss') = getline ss in line # stream_lines ss')"
  by pat_completeness auto
termination
proof (relation "measure length")
  fix ss :: string and x line ss'
  assume "ss \<noteq> []" and "x = getline ss" and "(line, ss') = x"
  then have "length ss' < length ss"
    using getline_shorter [of ss] by (metis snd_conv)
  then show "(ss', ss) \<in> measure length" by simp
qed simp

declare stream_lines.simps [simp del]

text \<open>The records that one pass of the loop body appends for a line.\<close>

definition line_records :: "string \<Rightarrow> TableInfo list" where
  "line_records line =
     (case regex_search line tablePattern of
        Some match \<Rightarrow> [\<lparr>number = match_str match 1, title = match_str match 2\<rparr>]
      | None \<Rightarrow> [])"

section \<open>Example inputs\<close>

text \<open>The words of the examples of the specification, in UTF-8: the Russian words for
  "list" (U+0421 U+043F U+0438 U+0441 U+043E U+043A), "of parameters" (U+043F U+0430 U+0440 U+0430
  U+043C U+0435 U+0442 U+0440 U+043E U+0432) and "total" (U+0418 U+0442 U+043E U+0433).\<close>

definition word_list :: string where
  "word_list = [CHR 0xD0, CHR 0xA1, CHR 0xD0, CHR 0xBF, CHR 0xD0, CHR 0xB8, CHR 0xD1, CHR 0x81,
     CHR 0xD0, CHR 0xBE, CHR 0xD0, CHR 0xBA]"

definition word_parameters :: string where
  "word_parameters = [CHR 0xD0, CHR 0xBF, CHR 0xD0, CHR 0xB0, CHR 0xD1, CHR 0x80, CHR 0xD0, CHR 0xB0,
     CHR 0xD0, CHR 0xBC, CHR 0xD0, CHR 0xB5, CHR 0xD1, CHR 0x82, CHR 0xD1, CHR 0x80, CHR 0xD0, CHR 0xBE,
     CHR 0xD0, CHR 0xB2]"

definition word_total :: string where
  "word_total = [CHR 0xD0, CHR 0x98, CHR 0xD1, CHR 0x82, CHR 0xD0, CHR 0xBE, CHR 0xD0, CHR 0xB3]"

text \<open>The caption line of property P1: the marker, \<open>3.1\<close>, three spaces, and the two
  words.\<close>

definition caption_P1 :: string where
  "caption_P1 = marker @ '' 3.1   '' @ word_list @ '' '' @ word_parameters"

text \<open>The caption line of property P2: the marker and \<open>5\<close>.\<close>

definition caption_P2 :: string where
  "caption_P2 = marker @ '' 5''"

text \<open>The caption line of property P3, as recognised: the identifier token is \<open>2|1\<close>.\<close>

definition caption_P3 :: string where
  "caption_P3 = marker @ '' 2|1 '' @ word_total"

section \<open>Theorems\<close>

lemma string_le_iff: "string_le a b \<longleftrightarrow> a \<le> b"
proof (induction a b rule: string_compare.induct)
  case (4 x xs y ys)
  then show ?case
    by (auto simp: string_le_def less_char_def less_eq_char_def)
qed (simp_all add: string_le_def)

subsection \<open>The order validator\<close>

lemma findMisordered_loop_fold:
  "findMisordered_loop rs out cursor = snd (fold spec_step rs (cursor, out))"
  by (induction rs arbitrary: out cursor) (simp_all add: spec_step_def string_le_iff)

text \<open>Claim C1. For every sequence of records, \<open>findMisorderedTables\<close> is the reference
  fold of the specification: the cursor starts at \<open>''0''\<close>, a record whose identifier is
  lexicographically at most the cursor appends the identifier and then the cursor, the
  cursor moves to the identifier after every comparison, and the first record is compared
  with \<open>''0''\<close> like any other.\<close>

theorem findMisorderedTables_is_reference_fold:
  "findMisorderedTables rs = spec_findMisordered rs"
  by (simp add: findMisorderedTables_def spec_findMisordered_def findMisordered_loop_fold)

text \<open>Claim C3. For the identifiers \<open>2\<close> and \<open>10\<close> in that order the result is exactly
  \<open>10\<close>, \<open>2\<close>, since \<open>10\<close> is at most \<open>2\<close> as a string.\<close>

theorem findMisorderedTables_2_10:
  "findMisorderedTables [\<lparr>number = ''2'', title = t1\<rparr>, \<lparr>number = ''10'', title = t2\<rparr>]
     = [''10'', ''2'']
   \<and> string_le ''10'' ''2''"
  by (simp add: findMisorderedTables_def string_le_def)

lemma findMisordered_loop_part_001_eq:
  "findMisordered_loop_part_001 ts out prev = findMisordered_loop_part_000 ts out prev"
  by (induction ts arbitrary: out prev) simp_all

lemma seconds_snoc2: "even (length xs) \<Longrightarrow> seconds (xs @ [a, b]) = seconds xs @ [b]"
  by (induction xs rule: seconds.induct) simp_all

lemma findMisordered_loop_seconds:
  "even (length out) \<Longrightarrow>
   findMisordered_loop_part_000 ts (seconds out) prev = seconds (findMisordered_loop ts out prev)"
proof (induction ts arbitrary: out prev)
  case Nil
  show ?case by simp
next
  case (Cons t ts)
  show ?case
  proof (cases "string_le (number t) prev")
    case True
    have "even (length (out @ [number t, prev]))" using Cons.prems by simp
    from Cons.IH [OF this] show ?thesis
      using True Cons.prems by (simp add: seconds_snoc2)
  next
    case False
    then show ?thesis using Cons.IH [OF Cons.prems] by simp
  qed
qed

text \<open>Claim C9, as the claim states it, fails: for two records with the identifier
  \<open>1\<close> the program reports \<open>1\<close>, \<open>1\<close> and the two variants report \<open>1\<close> once.\<close>

theorem variants_differ_counterexample:
  "findMisorderedTables [\<lparr>number = ''1'', title = []\<rparr>, \<lparr>number = ''1'', title = []\<rparr>]
     \<noteq> findMisorderedTables_part_000
         [\<lparr>number = ''1'', title = []\<rparr>, \<lparr>number = ''1'', title = []\<rparr>]"
  by (simp add: findMisorderedTables_def findMisorderedTables_part_000_def string_le_def)

text \<open>Claim C9, amended. The two variants return the same sequence, and it is every
  second entry of what \<open>findMisorderedTables\<close> of \<open>GetTable.cpp\<close> returns: of each
  reported pair the variants keep the previous identifier only.\<close>

theorem variants_report_previous_only:
  "findMisorderedTables_part_001 ts = findMisorderedTables_part_000 ts
   \<and> findMisorderedTables_part_000 ts = seconds (findMisorderedTables ts)"
  using findMisordered_loop_seconds [of "[]" ts "''0''"]
  by (simp add: findMisorderedTables_def findMisorderedTables_part_000_def
      findMisorderedTables_part_001_def findMisordered_loop_part_001_eq)

subsection \<open>Trimming\<close>

lemma find_if_takeWhile: "find_if (\<lambda>ch. \<not> P ch) s = length (takeWhile P s)"
  by (induction s) simp_all

lemma trim_eq: "trim s = rev (dropWhile isspace (rev (dropWhile isspace s)))"
proof -
  have a: "erase s 0 (find_if (\<lambda>ch. \<not> isspace ch) s) = dropWhile isspace s"
    by (simp add: erase_def find_if_takeWhile dropWhile_eq_drop)
  have b: "erase t (length t - find_if (\<lambda>ch. \<not> isspace ch) (rev t)) (length t)
      = rev (dropWhile isspace (rev t))" for t
    by (simp add: erase_def find_if_takeWhile dropWhile_eq_drop rev_drop)
  show ?thesis by (simp add: trim_def a b)
qed

lemma trim_decompose:
  "s = takeWhile isspace s @ trim s @ rev (takeWhile isspace (rev (dropWhile isspace s)))"
proof -
  have "rev (dropWhile isspace s)
      = takeWhile isspace (rev (dropWhile isspace s)) @ dropWhile isspace (rev (dropWhile isspace s))"
    by simp
  then have "dropWhile isspace s
      = rev (dropWhile isspace (rev (dropWhile isspace s)))
        @ rev (takeWhile isspace (rev (dropWhile isspace s)))"
    by (metis rev_append rev_rev_ident)
  then show ?thesis
    by (metis trim_eq takeWhile_dropWhile_id)
qed

lemma trim_hd: "trim s \<noteq> [] \<Longrightarrow> \<not> isspace (hd (trim s))"
proof -
  assume ne: "trim s \<noteq> []"
  let ?d = "dropWhile isspace s"
  have "rev ?d = takeWhile isspace (rev ?d) @ rev (trim s)"
    by (simp add: trim_eq)
  then have "?d = trim s @ rev (takeWhile isspace (rev ?d))"
    by (metis rev_append rev_rev_ident)
  then have "hd ?d = hd (trim s)" using ne by (metis hd_append2)
  moreover have "?d \<noteq> []"
  proof
    assume "?d = []"
    then have "trim s = rev (dropWhile isspace (rev []))" by (simp only: trim_eq)
    with ne show False by simp
  qed
  ultimately show ?thesis using hd_dropWhile [of isspace s] by simp
qed

lemma trim_last: "trim s \<noteq> [] \<Longrightarrow> \<not> isspace (last (trim s))"
proof -
  assume ne: "trim s \<noteq> []"
  let ?r = "dropWhile isspace (rev (dropWhile isspace s))"
  have "?r \<noteq> []" using ne by (simp add: trim_eq)
  then have "\<not> isspace (hd ?r)" by (rule hd_dropWhile)
  then show ?thesis using \<open>?r \<noteq> []\<close> by (simp add: trim_eq last_rev)
qed

lemma trim_idem: "trim (trim s) = trim s"
proof (cases "trim s = []")
  case True
  have "trim [] = []" by (simp add: trim_eq)
  then show ?thesis using True by simp
next
  case False
  have h: "\<not> isspace (hd (trim s))" using False by (rule trim_hd)
  have l: "\<not> isspace (last (trim s))" using False by (rule trim_last)
  have "dropWhile isspace (trim s) = trim s"
    using False h by (cases "trim s") simp_all
  moreover have "dropWhile isspace (rev (trim s)) = rev (trim s)"
    using False l by (cases "rev (trim s)") (simp_all add: last_rev [symmetric] hd_rev)
  ultimately show ?thesis
    by (metis trim_eq rev_rev_ident)
qed

text \<open>Claim C10. \<open>trim s\<close> is \<open>s\<close> without its leading and trailing whitespace: \<open>s\<close> is
  a run of whitespace, then \<open>trim s\<close>, then a run of whitespace, and \<open>trim s\<close>, when it
  is not empty, neither starts nor ends with whitespace; and \<open>trim\<close> is idempotent.\<close>

theorem trim_removes_outer_whitespace:
  "(\<exists>pre post. s = pre @ trim s @ post \<and> list_all isspace pre \<and> list_all isspace post)
   \<and> (trim s \<noteq> [] \<longrightarrow> \<not> isspace (hd (trim s)) \<and> \<not> isspace (last (trim s)))
   \<and> trim (trim s) = trim s"
proof -
  have "list_all isspace (takeWhile isspace s)"
    by (simp add: list_all_iff) (meson set_takeWhileD)
  moreover have "list_all isspace (rev (takeWhile isspace (rev (dropWhile isspace s))))"
    by (simp add: list_all_iff) (meson set_takeWhileD)
  ultimately have "\<exists>pre post. s = pre @ trim s @ post \<and> list_all isspace pre \<and> list_all isspace post"
    using trim_decompose [of s] by blast
  then show ?thesis
    using trim_hd trim_last trim_idem by blast
qed

theorem trim_removes_outer_whitespace_witness:
  "trim ''  a b  '' = ''a b'' \<and> trim ''  a b  '' \<noteq> []
   \<and> \<not> isspace (hd (trim ''  a b  '')) \<and> \<not> isspace (last (trim ''  a b  ''))
   \<and> trim (trim ''  a b  '') = trim ''  a b  ''"
  using trim_removes_outer_whitespace [of "''  a b  ''"]
  by (simp add: trim_def erase_def isspace_def)

subsection \<open>The matcher on the pattern of the program\<close>

lemma matcher_Cls [simp]:
  "matcher (Cls P) c ([], cs) = None"
  "matcher (Cls P) c (x # xs, cs) = (if P x then c (xs, cs) else None)"
  by (simp_all add: matcher.simps)

lemma matcher_Chr [simp]:
  "matcher (Chr ch) c ([], cs) = None"
  "matcher (Chr ch) c (x # xs, cs) = (if x = ch then c (xs, cs) else None)"
  by (simp_all add: matcher.simps)

lemma matcher_Star_Cls:
  "matcher (Star (Cls P)) c ([], cs) = c ([], cs)"
  "matcher (Star (Cls P)) c (x # xs, cs) =
     (if P x then (case matcher (Star (Cls P)) c (xs, cs) of Some r \<Rightarrow> Some r | None \<Rightarrow> c (x # xs, cs))
      else c (x # xs, cs))"
  by (subst matcher.simps, simp)+

lemma matcher_LazyStar_Cls:
  "matcher (LazyStar (Cls P)) c ([], cs) = c ([], cs)"
  "matcher (LazyStar (Cls P)) c (x # xs, cs) =
     (case c (x # xs, cs) of Some r \<Rightarrow> Some r
      | None \<Rightarrow> if P x then matcher (LazyStar (Cls P)) c (xs, cs) else None)"
  by (subst matcher.simps, simp split: option.splits)+

lemma matcher_Plus_Cls:
  "matcher (Plus (Cls P)) c ([], cs) = None"
  "matcher (Plus (Cls P)) c (x # xs, cs) =
     (if P x then matcher (Star (Cls P)) c (xs, cs) else None)"
  by (simp_all add: Plus_def matcher.simps(4))

lemma greedy_total:
  assumes "\<And>t. c (t, cs) \<noteq> None"
  shows "matcher (Star (Cls P)) c (s, cs) = c (dropWhile P s, cs)"
proof (induction s)
  case Nil
  show ?case by (simp add: matcher_Star_Cls)
next
  case (Cons x xs)
  obtain r where "c (dropWhile P xs, cs) = Some r"
    using assms [of "dropWhile P xs"] by auto
  then show ?case using Cons by (simp add: matcher_Star_Cls)
qed

lemma greedy_commit:
  assumes "\<And>t. t \<noteq> [] \<Longrightarrow> P (hd t) \<Longrightarrow> c (t, cs) = None"
  shows "matcher (Star (Cls P)) c (s, cs) = c (dropWhile P s, cs)"
proof (induction s)
  case Nil
  show ?case by (simp add: matcher_Star_Cls)
next
  case (Cons x xs)
  show ?case
  proof (cases "P x")
    case True
    then have "c (x # xs, cs) = None" using assms [of "x # xs"] by simp
    then show ?thesis using True Cons by (simp add: matcher_Star_Cls split: option.splits)
  next
    case False
    then show ?thesis by (simp add: matcher_Star_Cls)
  qed
qed

lemma matcher_lits:
  "matcher (lits m) c (s, cs) = (if prefix m s then c (drop (length m) s, cs) else None)"
proof (induction m arbitrary: s)
  case Nil
  show ?case by (simp add: matcher.simps(1))
next
  case (Cons a m)
  show ?case
  proof (cases s)
    case Nil
    then show ?thesis by (simp add: matcher.simps(4))
  next
    case (Cons x xs)
    then show ?thesis using Cons.IH [of xs] by (simp add: matcher.simps(4))
  qed
qed

lemma matcher_cong_le:
  "(\<And>st'. length (fst st') \<le> length (fst st) \<Longrightarrow> c st' = c' st') \<Longrightarrow>
   matcher r c st = matcher r c' st"
proof (induction r c st arbitrary: c' rule: matcher.induct)
  case (1 c st)
  then show ?case by (simp add: matcher.simps)
next
  case (2 ch c st)
  then show ?case by (cases "fst st") (simp_all add: matcher.simps)
next
  case (3 P c st)
  then show ?case by (cases "fst st") (simp_all add: matcher.simps)
next
  case (4 a b c st)
  have "matcher a (\<lambda>st'. matcher b c st') st = matcher a (\<lambda>st'. matcher b c' st') st"
  proof (rule "4.IH"(2))
    fix st' :: mstate assume le: "length (fst st') \<le> length (fst st)"
    show "matcher b c st' = matcher b c' st'"
      by (rule "4.IH"(1)) (use le "4.prems" in auto)
  qed
  then show ?case by (simp add: matcher.simps)
next
  case (5 a c st)
  let ?K = "\<lambda>c st'. if length (fst st') < length (fst st) then matcher (Star a) c st' else None"
  have "matcher a (?K c) st = matcher a (?K c') st"
  proof (rule "5.IH"(2))
    fix st' :: mstate assume le: "length (fst st') \<le> length (fst st)"
    show "?K c st' = ?K c' st'"
    proof (cases "length (fst st') < length (fst st)")
      case True
      have "matcher (Star a) c st' = matcher (Star a) c' st'"
        by (rule "5.IH"(1) [OF True]) (use le "5.prems" in auto)
      then show ?thesis by simp
    qed simp
  qed
  moreover have "c st = c' st" using "5.prems" by simp
  ultimately show ?case by (simp add: matcher.simps split: option.splits)
next
  case (6 a c st)
  have eq: "c st = c' st" using "6.prems" by simp
  show ?case
  proof (cases "c st")
    case None
    let ?K = "\<lambda>c st'. if length (fst st') < length (fst st) then matcher (LazyStar a) c st' else None"
    have "matcher a (?K c) st = matcher a (?K c') st"
    proof (rule "6.IH"(2) [OF None])
      fix st' :: mstate assume le: "length (fst st') \<le> length (fst st)"
      show "?K c st' = ?K c' st'"
      proof (cases "length (fst st') < length (fst st)")
        case True
        have "matcher (LazyStar a) c st' = matcher (LazyStar a) c' st'"
          by (rule "6.IH"(1) [OF None True]) (use le "6.prems" in auto)
        then show ?thesis by simp
      qed simp
    qed
    then show ?thesis using eq None by (simp add: matcher.simps)
  next
    case (Some r)
    then show ?thesis using eq by (simp add: matcher.simps)
  qed
next
  case (7 a c st)
  let ?K = "\<lambda>c st'. if length (fst st') < length (fst st) then c st' else None"
  have "matcher a (?K c) st = matcher a (?K c') st"
    by (rule "7.IH") (use "7.prems" in auto)
  moreover have "c st = c' st" using "7.prems" by simp
  ultimately show ?case by (simp add: matcher.simps split: option.splits)
next
  case (8 n a c st)
  let ?K = "\<lambda>c st'. c (fst st', (snd st')(n \<mapsto> take (length (fst st) - length (fst st')) (fst st)))"
  have "matcher a (?K c) st = matcher a (?K c') st"
    by (rule "8.IH") (use "8.prems" in auto)
  then show ?case by (simp add: matcher.simps)
qed

lemma take_length_dropWhile: "take (length t - length (dropWhile P t)) t = takeWhile P t"
proof -
  have "length (takeWhile P t) + length (dropWhile P t) = length t"
    by (metis length_append takeWhile_dropWhile_id)
  then have "length t - length (dropWhile P t) = length (takeWhile P t)" by simp
  then show ?thesis by (metis takeWhile_eq_take)
qed

lemma not_space_any: "\<not> isspace ch \<Longrightarrow> any_char ch"
  by (auto simp: isspace_def any_char_def)

lemma matcher_Seq: "matcher (Seq a b) c = matcher a (matcher b c)"
  by (rule ext) (simp only: matcher.simps(4))

lemma matcher_group2:
  "matcher (Group 2 (Star (Cls any_char))) Some (t, cs)
     = Some (dropWhile any_char t, cs(2 \<mapsto> takeWhile any_char t))"
proof -
  let ?c = "\<lambda>st'. Some (fst st', (snd st')(2 \<mapsto> take (length t - length (fst st')) t))"
  have "matcher (Group 2 (Star (Cls any_char))) Some (t, cs)
      = matcher (Star (Cls any_char)) ?c (t, cs)"
    apply (subst matcher.simps(8))
    apply (simp only: fst_conv snd_conv)
    done
  also have "\<dots> = ?c (dropWhile any_char t, cs)"
    by (rule greedy_total) simp
  finally show ?thesis by (simp add: take_length_dropWhile)
qed

lemma matcher_tail2:
  "matcher (Seq (Plus (Cls isspace)) (Group 2 (Star (Cls any_char)))) Some (u, cs)
     = (if u \<noteq> [] \<and> isspace (hd u)
        then Some (dropWhile any_char (dropWhile isspace u),
                   cs(2 \<mapsto> takeWhile any_char (dropWhile isspace u)))
        else None)"
proof -
  let ?G = "Group 2 (Star (Cls any_char))"
  have star: "matcher (Star (Cls isspace)) (matcher ?G Some) (xs, cs)
      = matcher ?G Some (dropWhile isspace xs, cs)" for xs
    by (rule greedy_total) (simp add: matcher_group2)
  have "matcher (Plus (Cls isspace)) (matcher ?G Some) (u, cs)
      = (if u \<noteq> [] \<and> isspace (hd u) then matcher ?G Some (dropWhile isspace u, cs) else None)"
    by (cases u) (simp_all add: matcher_Plus_Cls star)
  then show ?thesis
    by (simp only: matcher_Seq matcher_group2)
qed

lemma matcher_tail1:
  "matcher (Seq (LazyStar (Cls any_char)) (Seq (Plus (Cls isspace)) (Group 2 (Star (Cls any_char)))))
       Some (t, cs)
     = (if list_ex isspace t
        then matcher (Seq (Plus (Cls isspace)) (Group 2 (Star (Cls any_char)))) Some
               (dropWhile (\<lambda>ch. \<not> isspace ch) t, cs)
        else None)"
  (is "matcher (Seq ?L ?T2) Some (t, cs) = ?R t")
proof -
  have "matcher ?L (matcher ?T2 Some) (t, cs) = ?R t"
  proof (induction t)
    case Nil
    show ?case by (simp add: matcher_LazyStar_Cls matcher_tail2)
  next
    case (Cons x xs)
    show ?case
    proof (cases "isspace x")
      case True
      then show ?thesis by (simp add: matcher_LazyStar_Cls matcher_tail2)
    next
      case False
      then have "matcher ?T2 Some (x # xs, cs) = None" by (simp add: matcher_tail2)
      then show ?thesis using False Cons by (simp add: matcher_LazyStar_Cls not_space_any)
    qed
  qed
  then show ?thesis by (simp only: matcher_Seq [of ?L])
qed

lemma no_space_all_any: "\<not> list_ex isspace xs \<Longrightarrow> takeWhile any_char xs = xs \<and> dropWhile any_char xs = []"
  by (induction xs) (auto simp: not_space_any)

lemma matcher_tail1_Some:
  assumes "list_ex isspace u"
  shows "matcher (Seq (LazyStar (Cls any_char)) (Seq (Plus (Cls isspace)) (Group 2 (Star (Cls any_char)))))
       Some (u, cs) \<noteq> None"
proof -
  let ?d = "dropWhile (\<lambda>ch. \<not> isspace ch) u"
  have ne: "?d \<noteq> []" using assms by (auto simp: list_ex_iff)
  then have "isspace (hd ?d)" using hd_dropWhile [of "\<lambda>ch. \<not> isspace ch" u] by simp
  then show ?thesis using ne assms by (simp add: matcher_tail1 matcher_tail2)
qed

lemma matcher_backtrack:
  "matcher (Star (Cls isspace))
      (matcher (Seq (LazyStar (Cls any_char)) (Seq (Plus (Cls isspace)) (Group 2 (Star (Cls any_char))))) Some)
      (t, cs)
     = (if list_ex isspace (dropWhile isspace t)
        then matcher (Seq (LazyStar (Cls any_char)) (Seq (Plus (Cls isspace)) (Group 2 (Star (Cls any_char)))))
               Some (dropWhile isspace t, cs)
        else if t \<noteq> [] \<and> isspace (hd t) then Some ([], cs(2 \<mapsto> dropWhile isspace t))
        else None)"
  (is "matcher ?S (matcher ?T1 Some) (t, cs) = ?R t")
proof (induction t)
  case Nil
  show ?case by (simp add: matcher_Star_Cls matcher_tail1)
next
  case (Cons x xs)
  show ?case
  proof (cases "isspace x")
    case False
    then show ?thesis by (simp add: matcher_Star_Cls matcher_tail1)
  next
    case True
    note sp = True
    show ?thesis
    proof (cases "list_ex isspace (dropWhile isspace xs)")
      case True
      then obtain r where "matcher ?T1 Some (dropWhile isspace xs, cs) = Some r"
        using matcher_tail1_Some [of "dropWhile isspace xs" cs] by auto
      then show ?thesis using True sp Cons by (simp add: matcher_Star_Cls)
    next
      case False
      note nosp = False
      show ?thesis
      proof (cases "xs \<noteq> [] \<and> isspace (hd xs)")
        case True
        then show ?thesis using nosp sp Cons by (simp add: matcher_Star_Cls)
      next
        case False
        then have d: "dropWhile isspace xs = xs" by (cases xs) auto
        then have nx: "\<not> list_ex isspace xs" using nosp by simp
        have "matcher ?S (matcher ?T1 Some) (xs, cs) = None"
          using Cons False nosp by simp
        moreover have "matcher ?T1 Some (x # xs, cs) = Some ([], cs(2 \<mapsto> xs))"
        proof -
          have tw: "takeWhile any_char xs = xs" "dropWhile any_char xs = []"
            using no_space_all_any [OF nx] by simp_all
          show ?thesis using sp by (simp add: matcher_tail1 matcher_tail2 d tw)
        qed
        ultimately show ?thesis using sp nosp d by (simp add: matcher_Star_Cls)
      qed
    qed
  qed
qed

lemma matcher_tail1_caps:
  "map_option snd (matcher (Seq (LazyStar (Cls any_char)) (Seq (Plus (Cls isspace)) (Group 2 (Star (Cls any_char)))))
       Some (u, cs))
     = (if list_ex isspace u
        then Some (cs(2 \<mapsto> takeWhile any_char (dropWhile isspace (dropWhile (\<lambda>ch. \<not> isspace ch) u))))
        else None)"
proof (cases "list_ex isspace u")
  case True
  let ?d = "dropWhile (\<lambda>ch. \<not> isspace ch) u"
  have ne: "?d \<noteq> []" using True by (auto simp: list_ex_iff)
  then have "isspace (hd ?d)" using hd_dropWhile [of "\<lambda>ch. \<not> isspace ch" u] by simp
  then show ?thesis using ne True by (simp add: matcher_tail1 matcher_tail2)
next
  case False
  then show ?thesis by (simp add: matcher_tail1)
qed

lemma matcher_titlePart:
  "map_option snd (matcher titlePart Some (v, cs)) = map_option (\<lambda>t. cs(2 \<mapsto> t)) (title_after v)"
proof (cases v)
  case Nil
  then show ?thesis by (simp add: titlePart_def matcher_Seq matcher_Plus_Cls title_after_def)
next
  case (Cons x xs)
  show ?thesis
  proof (cases "isspace x")
    case False
    then show ?thesis using Cons
      by (simp add: titlePart_def matcher_Seq [of "Plus (Cls isspace)"] matcher_Plus_Cls title_after_def)
  next
    case True
    let ?r1 = "dropWhile isspace xs"
    have len: "length ?r1 \<noteq> Suc (length xs)"
      using length_dropWhile_le [of isspace xs] by simp
    have two: "(2 \<le> Suc (length xs) - length ?r1) = (xs \<noteq> [] \<and> isspace (hd xs))"
    proof (cases xs)
      case Nil then show ?thesis by simp
    next
      case (Cons y ys)
      have "length (dropWhile isspace ys) \<le> length ys" by (rule length_dropWhile_le)
      then show ?thesis using Cons by auto
    qed
    have ta: "title_after v =
       (if list_ex isspace ?r1
        then Some (takeWhile any_char (dropWhile isspace (dropWhile (\<lambda>ch. \<not> isspace ch) ?r1)))
        else if xs \<noteq> [] \<and> isspace (hd xs) then Some ?r1 else None)"
      using True Cons len by (simp add: title_after_def two)
    have m: "matcher titlePart Some (v, cs) = matcher (Star (Cls isspace))
      (matcher (Seq (LazyStar (Cls any_char)) (Seq (Plus (Cls isspace)) (Group 2 (Star (Cls any_char))))) Some)
      (xs, cs)"
      using True Cons by (simp add: titlePart_def matcher_Seq [of "Plus (Cls isspace)"] matcher_Plus_Cls)
    show ?thesis
    proof (cases "list_ex isspace ?r1")
      case True
      then show ?thesis
        using matcher_tail1_caps [of ?r1 cs] by (simp add: m ta matcher_backtrack)
    next
      case False
      then show ?thesis by (simp add: m ta matcher_backtrack)
    qed
  qed
qed

lemma matcher_Opt_titlePart:
  "map_option snd (matcher (Opt titlePart) Some (v, cs))
     = Some (case title_after v of None \<Rightarrow> cs | Some t \<Rightarrow> cs(2 \<mapsto> t))"
proof -
  let ?g = "\<lambda>st' :: mstate. if length (fst st') < length v then Some st' else None"
  let ?T1 = "Seq (LazyStar (Cls any_char)) (Seq (Plus (Cls isspace)) (Group 2 (Star (Cls any_char))))"
  have "matcher titlePart ?g (v, cs) = matcher titlePart Some (v, cs)"
  proof (cases v)
    case Nil
    then show ?thesis by (simp add: titlePart_def matcher_Seq [of "Plus (Cls isspace)"] matcher_Plus_Cls)
  next
    case (Cons x xs)
    have "matcher (Star (Cls isspace)) (matcher ?T1 ?g) (xs, cs)
        = matcher (Star (Cls isspace)) (matcher ?T1 Some) (xs, cs)"
    proof (rule matcher_cong_le)
      fix st' :: mstate assume le: "length (fst st') \<le> length (fst (xs, cs))"
      show "matcher ?T1 ?g st' = matcher ?T1 Some st'"
        by (rule matcher_cong_le) (use le Cons in auto)
    qed
    then show ?thesis using Cons
      by (simp add: titlePart_def matcher_Seq [of "Plus (Cls isspace)"] matcher_Plus_Cls)
  qed
  then have opt: "matcher (Opt titlePart) Some (v, cs)
      = (case matcher titlePart Some (v, cs) of Some r \<Rightarrow> Some r | None \<Rightarrow> Some (v, cs))"
    by (simp add: matcher.simps(7))
  show ?thesis
    using matcher_titlePart [of v cs]
    by (cases "title_after v"; cases "matcher titlePart Some (v, cs)") (auto simp: opt)
qed

lemma space_not_digit_or_period: "isspace ch \<Longrightarrow> \<not> digit_or_period ch"
  by (auto simp: isspace_def digit_or_period_def isdigit_def)

lemma matcher_identifier:
  "matcher (Seq (Group n (Plus (Cls digit_or_period))) (Opt titlePart)) Some (r, cs)
     = (if r \<noteq> [] \<and> digit_or_period (hd r)
        then matcher (Opt titlePart) Some
               (dropWhile digit_or_period r, cs(n \<mapsto> takeWhile digit_or_period r))
        else None)"
proof -
  let ?c = "\<lambda>st' :: mstate. matcher (Opt titlePart) Some
      (fst st', (snd st')(n \<mapsto> take (length r - length (fst st')) r))"
  have unfold: "matcher (Seq (Group n (Plus (Cls digit_or_period))) (Opt titlePart)) Some (r, cs)
      = matcher (Plus (Cls digit_or_period)) ?c (r, cs)"
    by (simp only: matcher_Seq matcher.simps(8) fst_conv snd_conv)
  show ?thesis
  proof (cases r)
    case Nil
    show ?thesis unfolding unfold using Nil by (simp add: matcher_Plus_Cls)
  next
    case (Cons x xs)
    show ?thesis
    proof (cases "digit_or_period x")
      case False
      show ?thesis unfolding unfold using False Cons by (simp add: matcher_Plus_Cls)
    next
      case True
      have total: "?c (t, cs) \<noteq> None" for t
        using matcher_Opt_titlePart [of t "cs(n \<mapsto> take (length r - length t) r)"] by auto
      have "matcher (Star (Cls digit_or_period)) ?c (xs, cs) = ?c (dropWhile digit_or_period xs, cs)"
        using total by (rule greedy_total)
      moreover have "dropWhile digit_or_period r = dropWhile digit_or_period xs"
        using True Cons by simp
      ultimately have "matcher (Plus (Cls digit_or_period)) ?c (r, cs)
          = matcher (Opt titlePart) Some
               (dropWhile digit_or_period r, cs(n \<mapsto> takeWhile digit_or_period r))"
        using True Cons take_length_dropWhile [of r digit_or_period]
        by (simp add: matcher_Plus_Cls)
      then show ?thesis unfolding unfold using True Cons by simp
    qed
  qed
qed

lemma matcher_after_marker:
  "matcher (Seq (Plus (Cls isspace)) (Seq (Group n (Plus (Cls digit_or_period))) (Opt titlePart)))
       Some (a, cs)
     = (if a \<noteq> [] \<and> isspace (hd a)
        then matcher (Seq (Group n (Plus (Cls digit_or_period))) (Opt titlePart)) Some
               (dropWhile isspace a, cs)
        else None)"
  (is "matcher (Seq ?W ?I) Some (a, cs) = ?R")
proof -
  have star: "matcher (Star (Cls isspace)) (matcher ?I Some) (xs, cs)
      = matcher ?I Some (dropWhile isspace xs, cs)" for xs
  proof (rule greedy_commit)
    fix t :: string assume "t \<noteq> []" and "isspace (hd t)"
    then show "matcher ?I Some (t, cs) = None"
      by (simp add: matcher_identifier space_not_digit_or_period)
  qed
  have "matcher ?W (matcher ?I Some) (a, cs) = ?R"
    by (cases a) (simp_all add: matcher_Plus_Cls star)
  then show ?thesis by (simp only: matcher_Seq [of ?W])
qed

lemma matcher_tablePattern:
  "map_option snd (matcher tablePattern Some (s, cs))
     = (if prefix marker s then
          let a = drop (length marker) s;
              r = dropWhile isspace a
          in if a \<noteq> [] \<and> isspace (hd a) \<and> r \<noteq> [] \<and> digit_or_period (hd r)
             then Some (case title_after (dropWhile digit_or_period r) of
                          None \<Rightarrow> cs(1 \<mapsto> takeWhile digit_or_period r)
                        | Some t \<Rightarrow> cs(1 \<mapsto> takeWhile digit_or_period r, 2 \<mapsto> t))
             else None
        else None)"
proof -
  have "matcher tablePattern Some (s, cs)
      = (if prefix marker s
         then matcher (Seq (Plus (Cls isspace)) (Seq (Group 1 (Plus (Cls digit_or_period))) (Opt titlePart)))
                Some (drop (length marker) s, cs)
         else None)"
    unfolding tablePattern_def by (simp only: matcher_Seq [of "lits marker"] matcher_lits)
  then show ?thesis
    by (simp add: matcher_after_marker matcher_identifier matcher_Opt_titlePart Let_def
        del: One_nat_def)
qed

lemma match_here_tablePattern:
  "map_option (\<lambda>m. (match_str m 1, match_str m 2)) (match_here tablePattern s) = caption_at s"
proof (cases "matcher tablePattern Some (s, Map.empty)")
  case None
  then show ?thesis
    using matcher_tablePattern [of s Map.empty]
    by (auto simp: match_here_def caption_at_def Let_def simp del: One_nat_def split: if_splits)
next
  case (Some st)
  then show ?thesis
    using matcher_tablePattern [of s Map.empty]
    by (auto simp: match_here_def caption_at_def Let_def match_str_def title_of_def
        simp del: One_nat_def split: if_splits option.splits)
qed

lemma regex_search_tablePattern:
  "map_option (\<lambda>m. (match_str m 1, match_str m 2)) (regex_search line tablePattern)
     = first_caption line"
proof (induction line)
  case Nil
  show ?case using match_here_tablePattern [of "[]"] by simp
next
  case (Cons c s)
  show ?case
  proof (cases "match_here tablePattern (c # s)")
    case None
    then have "caption_at (c # s) = None"
      using match_here_tablePattern [of "c # s"] by simp
    then show ?thesis using None Cons by simp
  next
    case (Some m)
    then have "caption_at (c # s) = Some (match_str m 1, match_str m 2)"
      using match_here_tablePattern [of "c # s"] by (simp del: One_nat_def)
    then show ?thesis using Some by (simp del: One_nat_def)
  qed
qed

lemma caption_at_SomeD:
  assumes "caption_at s = Some (ident, t)"
  shows "\<exists>ws rest. s = marker @ ws @ ident @ rest \<and> ws \<noteq> [] \<and> list_all isspace ws
           \<and> ident \<noteq> [] \<and> list_all digit_or_period ident
           \<and> (rest = [] \<or> \<not> digit_or_period (hd rest)) \<and> t = title_of rest"
proof -
  let ?a = "drop (length marker) s"
  let ?r = "dropWhile isspace ?a"
  let ?rest = "dropWhile digit_or_period ?r"
  from assms have p: "prefix marker s" and a: "?a \<noteq> []" "isspace (hd ?a)"
    and r: "?r \<noteq> []" "digit_or_period (hd ?r)"
    and i: "ident = takeWhile digit_or_period ?r" and t: "t = title_of ?rest"
    by (auto simp: caption_at_def Let_def split: if_splits)
  have s: "s = marker @ ?a" using p by (metis append_eq_conv_conj prefixE)
  have "s = marker @ takeWhile isspace ?a @ ident @ ?rest"
    using s i by (metis takeWhile_dropWhile_id)
  moreover have "takeWhile isspace ?a \<noteq> []" using a by (cases ?a) auto
  moreover have "list_all isspace (takeWhile isspace ?a)"
    by (simp add: list_all_iff) (meson set_takeWhileD)
  moreover have "ident \<noteq> []" using r i by (cases ?r) auto
  moreover have "list_all digit_or_period ident"
    unfolding i by (simp add: list_all_iff) (meson set_takeWhileD)
  moreover have "?rest = [] \<or> \<not> digit_or_period (hd ?rest)"
    using hd_dropWhile [of digit_or_period ?r] by blast
  ultimately show ?thesis using t by blast
qed

lemma caption_at_intro:
  assumes "ws \<noteq> []" "list_all isspace ws" "tok \<noteq> []" "list_all digit_or_period tok"
  shows "caption_at (marker @ ws @ tok @ rest) \<noteq> None"
proof -
  obtain w ws' where ws: "ws = w # ws'" using assms(1) by (cases ws) auto
  obtain d tok' where tok: "tok = d # tok'" using assms(3) by (cases tok) auto
  have w: "isspace w" using assms(2) ws by simp
  have d: "digit_or_period d" using assms(4) tok by simp
  then have nd: "\<not> isspace d" using space_not_digit_or_period by blast
  have "dropWhile isspace (ws @ tok @ rest) = dropWhile isspace (tok @ rest)"
    using assms(2) by (simp add: list_all_iff)
  then have r: "dropWhile isspace (ws @ tok @ rest) = tok @ rest"
    using nd tok by simp
  have a: "drop (length marker) (marker @ ws @ tok @ rest) = ws @ tok @ rest" by simp
  have p: "prefix marker (marker @ ws @ tok @ rest)" by simp
  have h1: "ws @ tok @ rest \<noteq> []" "isspace (hd (ws @ tok @ rest))" using ws w by simp_all
  have h2: "tok @ rest \<noteq> []" "digit_or_period (hd (tok @ rest))" using tok d by simp_all
  show ?thesis
    unfolding caption_at_def Let_def a r using p h1 h2 by simp
qed

lemma first_caption_SomeD:
  "first_caption line = Some r \<Longrightarrow> \<exists>pre s. line = pre @ s \<and> caption_at s = Some r"
proof (induction line)
  case Nil
  then show ?case by simp
next
  case (Cons c s)
  show ?case
  proof (cases "caption_at (c # s)")
    case None
    then have "first_caption s = Some r" using Cons.prems by simp
    then obtain pre s' where "s = pre @ s'" "caption_at s' = Some r"
      using Cons.IH by blast
    then have "c # s = (c # pre) @ s' \<and> caption_at s' = Some r" by simp
    then show ?thesis by blast
  next
    case (Some r')
    then have "c # s = [] @ (c # s) \<and> caption_at (c # s) = Some r"
      using Cons.prems by simp
    then show ?thesis by blast
  qed
qed

lemma first_caption_intro:
  "caption_at s \<noteq> None \<Longrightarrow> first_caption (pre @ s) \<noteq> None"
proof (induction pre)
  case Nil
  then show ?case by (cases s) auto
next
  case (Cons c pre)
  then show ?case by (cases "caption_at (c # pre @ s)") auto
qed

lemma first_caption_marker: "first_caption line \<noteq> None \<Longrightarrow> sublist marker line"
proof -
  assume "first_caption line \<noteq> None"
  then obtain r where "first_caption line = Some r" by auto
  then obtain pre s where l: "line = pre @ s" and c: "caption_at s = Some r"
    using first_caption_SomeD by blast
  from c have "prefix marker s" by (auto simp: caption_at_def split: if_splits)
  then obtain post where "s = marker @ post" by (auto simp: prefix_def)
  then show ?thesis using l by (auto simp: sublist_def)
qed


subsection \<open>The loop over the lines\<close>

lemma getline_no_newline: "CHR 0x0A \<notin> set line \<Longrightarrow> getline line = (line, [])"
  by (induction line) auto

lemma fst_getline_no_newline: "CHR 0x0A \<notin> set (fst (getline ss))"
  by (induction ss) (auto split: prod.splits)

lemma getline_rejoin:
  "fst (getline ss) @ (if CHR 0x0A \<in> set ss then [CHR 0x0A] else []) @ snd (getline ss) = ss"
  by (induction ss) (auto split: prod.splits)

lemma line_records_first_caption:
  "line_records line =
     (case first_caption line of None \<Rightarrow> [] | Some (i, t) \<Rightarrow> [\<lparr>number = i, title = t\<rparr>])"
proof (cases "regex_search line tablePattern")
  case None
  then have "first_caption line = None"
    using regex_search_tablePattern [of line] by simp
  then show ?thesis using None by (simp add: line_records_def)
next
  case (Some m)
  then have "first_caption line = Some (match_str m 1, match_str m 2)"
    using regex_search_tablePattern [of line] by (simp del: One_nat_def)
  then show ?thesis using Some by (simp add: line_records_def del: One_nat_def)
qed

lemma stream_lines_Nil: "stream_lines [] = []"
  by (simp add: stream_lines.simps)

lemma extract_loop_lines:
  "extract_loop ss tables = tables @ concat (map line_records (stream_lines ss))"
proof (induction ss tables rule: extract_loop.induct)
  case (1 ss tables)
  show ?case
  proof (cases "ss = []")
    case True
    then show ?thesis by (simp add: extract_loop.simps stream_lines.simps)
  next
    case False
    obtain line ss' where g: "getline ss = (line, ss')" by (cases "getline ss") auto
    have lr: "(case regex_search line tablePattern of
                 Some match \<Rightarrow> tables @ [\<lparr>number = match_str match 1, title = match_str match 2\<rparr>]
               | None \<Rightarrow> tables) = tables @ line_records line"
      by (simp add: line_records_def split: option.splits)
    have "extract_loop ss tables = extract_loop ss' (tables @ line_records line)"
      by (subst extract_loop.simps) (simp only: False g if_False Let_def prod.case lr)
    also have "\<dots> = (tables @ line_records line) @ concat (map line_records (stream_lines ss'))"
      using "1.IH" [OF False g [symmetric] refl] unfolding lr .
    also have "\<dots> = tables @ concat (map line_records (stream_lines ss))"
      using False g by (subst (2) stream_lines.simps) simp
    finally show ?thesis .
  qed
qed

lemma line_records_Nil: "line_records [] = []"
  by (simp add: line_records_first_caption caption_at_def marker_def)

lemma extract_single_line:
  assumes "CHR 0x0A \<notin> set line"
  shows "extractTableInfo line = line_records line"
proof (cases "line = []")
  case True
  then show ?thesis by (simp add: extractTableInfo_def extract_loop.simps line_records_Nil)
next
  case False
  then have "stream_lines line = [line]"
    using getline_no_newline [OF assms] by (subst stream_lines.simps) (simp add: stream_lines.simps)
  then show ?thesis by (simp add: extractTableInfo_def extract_loop_lines)
qed

lemma stream_lines_no_newline: "l \<in> set (stream_lines ss) \<Longrightarrow> CHR 0x0A \<notin> set l"
proof (induction ss rule: stream_lines.induct)
  case (1 ss)
  show ?case
  proof (cases "ss = []")
    case True
    then show ?thesis using "1.prems" by (simp add: stream_lines.simps)
  next
    case False
    obtain line ss' where g: "getline ss = (line, ss')" by (cases "getline ss") auto
    have "stream_lines ss = line # stream_lines ss'"
      using False g by (subst stream_lines.simps) simp
    then have "l = line \<or> l \<in> set (stream_lines ss')" using "1.prems" by simp
    then show ?thesis
    proof
      assume "l = line"
      then show ?thesis using fst_getline_no_newline [of ss] g by simp
    next
      assume "l \<in> set (stream_lines ss')"
      then show ?thesis using "1.IH" [OF False g [symmetric] refl] by simp
    qed
  qed
qed

lemma extract_lines:
  "extractTableInfo text = concat (map extractTableInfo (stream_lines text))"
proof -
  have "extractTableInfo l = line_records l" if "l \<in> set (stream_lines text)" for l
    using that by (intro extract_single_line stream_lines_no_newline)
  then have m: "map extractTableInfo (stream_lines text) = map line_records (stream_lines text)"
    by (intro map_cong refl)
  have "extractTableInfo text = concat (map line_records (stream_lines text))"
    by (simp add: extractTableInfo_def extract_loop_lines)
  then show ?thesis unfolding m .
qed

lemma stream_lines_rejoin:
  "concat (map (\<lambda>l. l @ [CHR 0x0A]) (stream_lines ss))
     = (if ss = [] \<or> last ss = CHR 0x0A then ss else ss @ [CHR 0x0A])"
proof (induction ss rule: stream_lines.induct)
  case (1 ss)
  show ?case
  proof (cases "ss = []")
    case True
    then show ?thesis by (simp add: stream_lines.simps)
  next
    case False
    obtain line ss' where g: "getline ss = (line, ss')" by (cases "getline ss") auto
    have sl: "stream_lines ss = line # stream_lines ss'"
      using False g by (subst stream_lines.simps) simp
    have ih: "concat (map (\<lambda>l. l @ [CHR 0x0A]) (stream_lines ss'))
        = (if ss' = [] \<or> last ss' = CHR 0x0A then ss' else ss' @ [CHR 0x0A])"
      using "1.IH" [OF False g [symmetric] refl] .
    have rj: "line @ (if CHR 0x0A \<in> set ss then [CHR 0x0A] else []) @ ss' = ss"
      using getline_rejoin [of ss] g by simp
    show ?thesis
    proof (cases "CHR 0x0A \<in> set ss")
      case True
      then have ss: "line @ [CHR 0x0A] @ ss' = ss" using rj by simp
      then have l: "last ss = (if ss' = [] then CHR 0x0A else last ss')"
        by (metis append_assoc last_append last_snoc)
      have c: "concat (map (\<lambda>l. l @ [CHR 0x0A]) (stream_lines ss))
          = line @ [CHR 0x0A] @ (if ss' = [] \<or> last ss' = CHR 0x0A then ss' else ss' @ [CHR 0x0A])"
        by (simp add: sl ih)
      show ?thesis
      proof (cases "ss' = [] \<or> last ss' = CHR 0x0A")
        case True
        then have "last ss = CHR 0x0A" using l by auto
        then show ?thesis using True c ss by simp
      next
        case False
        then have "last ss \<noteq> CHR 0x0A" using l by auto
        moreover have "line @ [CHR 0x0A] @ ss' @ [CHR 0x0A] = ss @ [CHR 0x0A]"
          using ss by (metis append_assoc)
        ultimately show ?thesis using False c \<open>ss \<noteq> []\<close> by simp
      qed
    next
      case False
      then have "ss' = []" "line = ss"
        using getline_no_newline [of ss] g by simp_all
      then have "stream_lines ss = [ss]"
        using sl by (simp add: stream_lines_Nil)
      moreover have "last ss \<noteq> CHR 0x0A"
        using False \<open>ss \<noteq> []\<close> last_in_set by metis
      ultimately show ?thesis using \<open>ss \<noteq> []\<close> by simp
    qed
  qed
qed


lemma extract_line_cases:
  assumes "CHR 0x0A \<notin> set line"
  shows "extractTableInfo line =
     (case first_caption line of None \<Rightarrow> [] | Some (i, t) \<Rightarrow> [\<lparr>number = i, title = t\<rparr>])"
  using assms by (simp add: extract_single_line line_records_first_caption)

lemma extract_line_record:
  assumes "CHR 0x0A \<notin> set line" and "r \<in> set (extractTableInfo line)"
  shows "\<exists>pre ws rest. line = pre @ marker @ ws @ number r @ rest
           \<and> ws \<noteq> [] \<and> list_all isspace ws
           \<and> number r \<noteq> [] \<and> list_all digit_or_period (number r)
           \<and> (rest = [] \<or> \<not> digit_or_period (hd rest))
           \<and> title r = title_of rest"
proof -
  have "first_caption line \<noteq> None"
  proof
    assume "first_caption line = None"
    then have "extractTableInfo line = []" using assms(1) by (simp add: extract_line_cases)
    with assms(2) show False by simp
  qed
  then obtain i t where fc: "first_caption line = Some (i, t)" by auto
  then have r: "r = \<lparr>number = i, title = t\<rparr>"
    using assms by (simp add: extract_line_cases)
  from fc obtain pre s where l: "line = pre @ s" and c: "caption_at s = Some (i, t)"
    using first_caption_SomeD by blast
  from caption_at_SomeD [OF c] obtain ws rest where
    "s = marker @ ws @ i @ rest" "ws \<noteq> []" "list_all isspace ws" "i \<noteq> []"
    "list_all digit_or_period i" "rest = [] \<or> \<not> digit_or_period (hd rest)" "t = title_of rest"
    by blast
  then show ?thesis using l r by auto
qed

lemma extract_line_nonempty_iff:
  assumes "CHR 0x0A \<notin> set line"
  shows "(extractTableInfo line \<noteq> []) =
     (\<exists>pre ws tok rest. line = pre @ marker @ ws @ tok @ rest
        \<and> ws \<noteq> [] \<and> list_all isspace ws \<and> tok \<noteq> [] \<and> list_all digit_or_period tok)"
proof
  assume "extractTableInfo line \<noteq> []"
  then obtain r where "r \<in> set (extractTableInfo line)" by (cases "extractTableInfo line") auto
  from extract_line_record [OF assms this] show
    "\<exists>pre ws tok rest. line = pre @ marker @ ws @ tok @ rest
        \<and> ws \<noteq> [] \<and> list_all isspace ws \<and> tok \<noteq> [] \<and> list_all digit_or_period tok"
    by blast
next
  assume "\<exists>pre ws tok rest. line = pre @ marker @ ws @ tok @ rest
        \<and> ws \<noteq> [] \<and> list_all isspace ws \<and> tok \<noteq> [] \<and> list_all digit_or_period tok"
  then obtain pre ws tok rest where l: "line = pre @ marker @ ws @ tok @ rest"
    and h: "ws \<noteq> []" "list_all isspace ws" "tok \<noteq> []" "list_all digit_or_period tok"
    by blast
  have "first_caption (pre @ marker @ ws @ tok @ rest) \<noteq> None"
    by (rule first_caption_intro) (rule caption_at_intro [OF h])
  then show "extractTableInfo line \<noteq> []"
    using l assms by (auto simp: extract_line_cases)
qed

lemma extract_line_le1: "CHR 0x0A \<notin> set line \<Longrightarrow> length (extractTableInfo line) \<le> 1"
  by (simp add: extract_line_cases split: option.splits)

lemma extract_line_no_marker:
  "CHR 0x0A \<notin> set line \<Longrightarrow> \<not> sublist marker line \<Longrightarrow> extractTableInfo line = []"
  using first_caption_marker [of line] by (auto simp: extract_line_cases split: option.splits)


subsection \<open>Extraction on the example captions\<close>

text \<open>Claim C5. The line of the marker and \<open>5\<close>, with nothing after the identifier,
  gives exactly one record, with the identifier \<open>5\<close> and the empty title.\<close>

theorem extract_caption_without_title:
  "extractTableInfo caption_P2 = [\<lparr>number = ''5'', title = []\<rparr>]"
  by code_simp

text \<open>Claim C4, as the claim states it, fails: the title extracted from the line of
  property P1 is not the two words after the identifier.\<close>

theorem extract_caption_P1_counterexample:
  "extractTableInfo caption_P1
     \<noteq> [\<lparr>number = ''3.1'', title = word_list @ '' '' @ word_parameters\<rparr>]"
  by code_simp

text \<open>Claim C4, amended. The line of property P1 gives exactly one record, with the
  identifier \<open>3.1\<close> and the second word alone as its title: the pattern matches the
  first word after the identifier with its \<open>.*?\<close> between two runs of whitespace, and
  only what follows is the title.\<close>

theorem extract_caption_P1:
  "extractTableInfo caption_P1 = [\<lparr>number = ''3.1'', title = word_parameters\<rparr>]"
  by code_simp

lemma replace_map:
  "replace text old_value new_value = map (\<lambda>c. if c = old_value then new_value else c) text"
  by (induction "text") simp_all

lemma replace_append:
  "replace (a @ b) old_value new_value = replace a old_value new_value @ replace b old_value new_value"
  by (simp add: replace_map)

lemma replace_space:
  "list_all isspace ws \<Longrightarrow> replace ws (CHR ''|'') (CHR ''1'') = ws"
  by (induction ws) (auto simp: isspace_def)

lemma replace_marker: "replace marker (CHR ''|'') (CHR ''1'') = marker"
  by (simp add: marker_def)

lemma marker_no_newline: "CHR 0x0A \<notin> set marker"
  by (simp add: marker_def)

lemma first_caption_at_start:
  "caption_at s = Some r \<Longrightarrow> first_caption s = Some r"
  by (cases s) simp_all

lemma marker_border_free:
  assumes "0 < n" "n < 14"
  shows "drop n marker \<noteq> take (14 - n) marker"
proof -
  have "\<forall>k\<in>set [1..<14]. drop k marker \<noteq> take (14 - k) marker"
    by code_simp
  then show ?thesis using assms by auto
qed

lemma length_marker: "length marker = 14"
  by (simp add: marker_def)

lemma no_marker_overlap:
  assumes "q \<noteq> []" and "\<not> sublist marker q"
  shows "\<not> prefix marker (q @ marker @ tail)"
proof
  assume p: "prefix marker (q @ marker @ tail)"
  show False
  proof (cases "14 \<le> length q")
    case True
    from p have "take 14 (q @ marker @ tail) = marker"
      by (metis length_marker prefix_def append_eq_conv_conj)
    then have "take 14 q = marker" using True by simp
    then have "q = marker @ drop 14 q" by (metis append_take_drop_id)
    then have "prefix marker q" by (metis prefixI)
    then show False using assms(2) by auto
  next
    case False
    let ?n = "length q"
    have n: "0 < ?n" "?n < 14" using assms(1) False by simp_all
    from p have "take 14 (q @ marker @ tail) = marker"
      by (metis length_marker prefix_def append_eq_conv_conj)
    then have "q @ take (14 - ?n) marker = marker"
      using n by (simp add: length_marker)
    then have "drop ?n (q @ take (14 - ?n) marker) = drop ?n marker" by simp
    then have "take (14 - ?n) marker = drop ?n marker" by simp
    then show False using marker_border_free [OF n] by simp
  qed
qed

lemma first_caption_skip:
  "(\<And>q. q \<noteq> [] \<Longrightarrow> suffix q p \<Longrightarrow> caption_at (q @ s) = None) \<Longrightarrow>
   first_caption (p @ s) = first_caption s"
proof (induction p)
  case Nil
  show ?case by simp
next
  case (Cons c p)
  have "caption_at ((c # p) @ s) = None"
    by (rule Cons.prems) simp_all
  moreover have "first_caption (p @ s) = first_caption s"
    by (rule Cons.IH) (simp add: Cons.prems suffix_ConsI)
  ultimately show ?case by simp
qed

lemma caption_at_no_prefix: "\<not> prefix marker x \<Longrightarrow> caption_at x = None"
  by (simp add: caption_at_def)

lemma sublist_suffix_trans: "sublist m q \<Longrightarrow> suffix q p \<Longrightarrow> sublist m p"
  by (auto simp: sublist_def suffix_def) (metis append.assoc)

lemma first_caption_after_text:
  assumes "\<not> sublist marker pre"
  shows "first_caption (pre @ marker @ tail) = first_caption (marker @ tail)"
proof (rule first_caption_skip)
  fix q assume q: "q \<noteq> []" "suffix q pre"
  have "\<not> sublist marker q" using assms q(2) sublist_suffix_trans by blast
  then have "\<not> prefix marker (q @ marker @ tail)" using q(1) by (rule no_marker_overlap [rotated])
  then show "caption_at (q @ marker @ tail) = None" by (rule caption_at_no_prefix)
qed

lemma replace_keeps_marker:
  assumes "sublist marker (replace pre (CHR ''|'') (CHR ''1''))"
  shows "sublist marker pre"
proof -
  let ?f = "\<lambda>c. if c = CHR ''|'' then CHR ''1'' else c"
  from assms obtain a b where "map ?f pre = a @ marker @ b"
    by (auto simp: sublist_def replace_map)
  then have "take (length marker) (drop (length a) (map ?f pre)) = marker" by simp
  then have m: "map ?f (take (length marker) (drop (length a) pre)) = marker"
    by (simp add: take_map drop_map)
  define a0 where "a0 = take (length a) pre"
  define m0 where "m0 = take (length marker) (drop (length a) pre)"
  define b0 where "b0 = drop (length marker) (drop (length a) pre)"
  have pre: "pre = a0 @ m0 @ b0"
    unfolding a0_def m0_def b0_def by (simp only: append_take_drop_id)
  have m: "map ?f m0 = marker" using m by (simp add: m0_def)
  have one: "CHR ''1'' \<notin> set marker" by (simp add: marker_def)
  have "map ?f m0 = m0"
  proof (rule map_idI)
    fix x assume x: "x \<in> set m0"
    then have "?f x \<in> set (map ?f m0)" by simp
    then have "?f x \<in> set marker" by (simp only: m)
    then have "?f x \<noteq> CHR ''1''" using one by auto
    then show "?f x = x" by (auto split: if_splits)
  qed
  then have "m0 = marker" using m by simp
  then show ?thesis using pre by (auto simp: sublist_def)
qed

lemma getline_replace:
  assumes "a \<noteq> CHR 0x0A" "b \<noteq> CHR 0x0A"
  shows "getline (replace s a b) = (replace (fst (getline s)) a b, replace (snd (getline s)) a b)"
  using assms by (induction s) (auto split: prod.splits)

lemma replace_Nil_iff: "replace s a b = [] \<longleftrightarrow> s = []"
  by (cases s) simp_all

lemma stream_lines_replace:
  assumes "a \<noteq> CHR 0x0A" "b \<noteq> CHR 0x0A"
  shows "stream_lines (replace s a b) = map (\<lambda>l. replace l a b) (stream_lines s)"
proof (induction s rule: stream_lines.induct)
  case (1 ss)
  show ?case
  proof (cases "ss = []")
    case True
    then show ?thesis by (simp add: stream_lines_Nil)
  next
    case False
    obtain line ss' where g: "getline ss = (line, ss')" by (cases "getline ss") auto
    have g': "getline (replace ss a b) = (replace line a b, replace ss' a b)"
      using getline_replace [OF assms, of ss] g by simp
    have ne: "replace ss a b \<noteq> []" using False by (simp add: replace_Nil_iff)
    have "stream_lines (replace ss a b) = replace line a b # stream_lines (replace ss' a b)"
      using ne g' by (subst stream_lines.simps) simp
    moreover have "stream_lines ss = line # stream_lines ss'"
      using False g by (subst stream_lines.simps) simp
    ultimately show ?thesis
      using "1.IH" [OF False g [symmetric] refl] by simp
  qed
qed

lemma main_core_lines:
  "fst (main_core text) =
     concat (map (\<lambda>l. extractTableInfo (replace l (CHR ''|'') (CHR ''1''))) (stream_lines text))"
proof -
  have "fst (main_core text) = extractTableInfo (replace text (CHR ''|'') (CHR ''1''))"
    by (simp add: main_core_def Let_def)
  also have "\<dots> = concat (map extractTableInfo (stream_lines (replace text (CHR ''|'') (CHR ''1''))))"
    by (rule extract_lines)
  also have "\<dots> = concat (map (\<lambda>l. extractTableInfo (replace l (CHR ''|'') (CHR ''1''))) (stream_lines text))"
    by (simp add: stream_lines_replace comp_def)
  finally show ?thesis .
qed

lemma identifier_with_pipe_in_line:
  assumes "\<not> sublist marker pre" "CHR 0x0A \<notin> set pre"
    and "ws \<noteq> []" "list_all isspace ws" "CHR 0x0A \<notin> set ws" "CHR 0x0A \<notin> set rest"
    and "rest = [] \<or> \<not> (digit_or_period (hd rest) \<or> hd rest = CHR ''|'')"
  shows "\<exists>t. extractTableInfo (replace (pre @ marker @ ws @ ''2|1'' @ rest) (CHR ''|'') (CHR ''1''))
           = [\<lparr>number = ''211'', title = t\<rparr>]"
proof -
  let ?pre = "replace pre (CHR ''|'') (CHR ''1'')"
  let ?rest = "replace rest (CHR ''|'') (CHR ''1'')"
  let ?tail = "ws @ ''211'' @ ?rest"
  let ?line = "?pre @ marker @ ?tail"
  have rp: "replace (pre @ marker @ ws @ ''2|1'' @ rest) (CHR ''|'') (CHR ''1'') = ?line"
    using assms(4) by (simp add: replace_append replace_space replace_marker)
  have nl: "CHR 0x0A \<notin> set ?line"
    using assms(2,5,6) marker_no_newline by (auto simp: replace_map)
  have np: "\<not> sublist marker ?pre" using assms(1) replace_keeps_marker by blast
  have hd: "?rest = [] \<or> \<not> digit_or_period (hd ?rest)"
    using assms(7) by (cases rest) (auto simp: digit_or_period_def isdigit_def)
  obtain w ws' where ws: "ws = w # ws'" using assms(3) by (cases ws) auto
  have w: "isspace w" using assms(4) ws by simp
  have d: "dropWhile isspace ?tail = ''211'' @ ?rest"
    using assms(4) by (simp add: list_all_iff isspace_def)
  have tw: "takeWhile digit_or_period (''211'' @ ?rest) = ''211''"
    using hd by (cases ?rest) (simp_all add: digit_or_period_def isdigit_def)
  have a: "drop (length marker) (marker @ ?tail) = ?tail" by simp
  have "\<exists>t. caption_at (marker @ ?tail) = Some (''211'', t)"
    unfolding caption_at_def Let_def a d tw using w ws
    by (simp add: digit_or_period_def isdigit_def)
  then obtain t where "first_caption (marker @ ?tail) = Some (''211'', t)"
    using first_caption_at_start by blast
  then have "first_caption ?line = Some (''211'', t)"
    using first_caption_after_text [OF np] by simp
  then have "extractTableInfo ?line = [\<lparr>number = ''211'', title = t\<rparr>]"
    using nl by (simp add: extract_line_cases)
  then show ?thesis unfolding rp by blast
qed

text \<open>Claim C6. \<open>main\<close> replaces every \<open>|\<close> of the whole recognised text by \<open>1\<close>,
  character by character, before \<open>extractTableInfo\<close> scans any line: the records are
  those of the lines of the text, each line after the replacement. So a line that holds,
  after any text without the marker, the marker, whitespace and the identifier token
  \<open>2|1\<close> (the token ends there: what follows does not start with a digit, a period or a
  \<open>|\<close>) gives exactly one record, with the identifier \<open>211\<close>, and that record is among
  the records of every text that has this line.\<close>

theorem pipes_replaced_before_extraction:
  assumes "line = pre @ marker @ ws @ ''2|1'' @ rest"
    and "CHR 0x0A \<notin> set line" and "\<not> sublist marker pre"
    and "ws \<noteq> []" and "list_all isspace ws"
    and "rest = [] \<or> \<not> (digit_or_period (hd rest) \<or> hd rest = CHR ''|'')"
  shows "replace text (CHR ''|'') (CHR ''1'') = map (\<lambda>c. if c = CHR ''|'' then CHR ''1'' else c) text
   \<and> fst (main_core text) = extractTableInfo (replace text (CHR ''|'') (CHR ''1''))
   \<and> fst (main_core text) =
       concat (map (\<lambda>l. extractTableInfo (replace l (CHR ''|'') (CHR ''1''))) (stream_lines text))
   \<and> (\<exists>t. extractTableInfo (replace line (CHR ''|'') (CHR ''1'')) = [\<lparr>number = ''211'', title = t\<rparr>])
   \<and> (line \<in> set (stream_lines text) \<longrightarrow>
        (\<exists>t. \<lparr>number = ''211'', title = t\<rparr> \<in> set (fst (main_core text))))"
proof -
  have nl: "CHR 0x0A \<notin> set pre" "CHR 0x0A \<notin> set ws" "CHR 0x0A \<notin> set rest"
    using assms(1,2) by simp_all
  obtain t where t: "extractTableInfo (replace line (CHR ''|'') (CHR ''1''))
      = [\<lparr>number = ''211'', title = t\<rparr>]"
    using identifier_with_pipe_in_line [OF assms(3) nl(1) assms(4,5) nl(2,3) assms(6)]
    unfolding assms(1) by blast
  have m: "fst (main_core text) = extractTableInfo (replace text (CHR ''|'') (CHR ''1''))"
    by (simp add: main_core_def Let_def)
  have "\<lparr>number = ''211'', title = t\<rparr> \<in> set (fst (main_core text))"
    if "line \<in> set (stream_lines text)"
    unfolding main_core_lines using that t by (auto intro!: bexI [of _ line])
  then have "line \<in> set (stream_lines text) \<longrightarrow>
        (\<exists>t. \<lparr>number = ''211'', title = t\<rparr> \<in> set (fst (main_core text)))"
    by blast
  moreover have "\<exists>t. extractTableInfo (replace line (CHR ''|'') (CHR ''1''))
      = [\<lparr>number = ''211'', title = t\<rparr>]"
    using t by blast
  ultimately show ?thesis
    using m main_core_lines [of "text"] replace_map [of "text" "CHR ''|''" "CHR ''1''"]
    by (intro conjI)
qed

theorem pipes_replaced_before_extraction_witness:
  "''x '' @ caption_P3 = ''x '' @ marker @ '' '' @ ''2|1'' @ ('' '' @ word_total)
   \<and> CHR 0x0A \<notin> set (''x '' @ caption_P3) \<and> \<not> sublist marker ''x ''
   \<and> ''x '' @ caption_P3
       \<in> set (stream_lines (''intro'' @ [CHR 0x0A] @ ''x '' @ caption_P3 @ [CHR 0x0A] @ ''end''))
   \<and> fst (main_core (''intro'' @ [CHR 0x0A] @ ''x '' @ caption_P3 @ [CHR 0x0A] @ ''end''))
       = [\<lparr>number = ''211'', title = []\<rparr>]
   \<and> (\<exists>t. \<lparr>number = ''211'', title = t\<rparr>
         \<in> set (fst (main_core (''intro'' @ [CHR 0x0A] @ ''x '' @ caption_P3 @ [CHR 0x0A] @ ''end''))))"
proof -
  let ?text = "''intro'' @ [CHR 0x0A] @ ''x '' @ caption_P3 @ [CHR 0x0A] @ ''end''"
  have eq: "''x '' @ caption_P3 = ''x '' @ marker @ '' '' @ ''2|1'' @ ('' '' @ word_total)"
    by (simp add: caption_P3_def)
  have h: "CHR 0x0A \<notin> set (''x '' @ caption_P3)" "\<not> sublist marker ''x ''"
      "'' '' \<noteq> []" "list_all isspace '' ''"
      "'' '' @ word_total = []
        \<or> \<not> (digit_or_period (hd ('' '' @ word_total)) \<or> hd ('' '' @ word_total) = CHR ''|'')"
    by code_simp+
  have sl: "''x '' @ caption_P3 \<in> set (stream_lines ?text)" by code_simp
  have r: "fst (main_core ?text) = [\<lparr>number = ''211'', title = []\<rparr>]" by code_simp
  note th = pipes_replaced_before_extraction [OF eq h(1,2,3,4,5), of ?text]
  have "\<exists>t. \<lparr>number = ''211'', title = t\<rparr> \<in> set (fst (main_core ?text))"
    using th sl by blast
  then show ?thesis using eq h(1,2) sl r by (intro conjI)
qed


subsection \<open>Extraction in general\<close>

lemma title_of_after_word:
  assumes "ws1 \<noteq> []" "list_all isspace ws1" "w \<noteq> []" "list_all (\<lambda>ch. \<not> isspace ch) w"
    and "ws2 \<noteq> []" "list_all isspace ws2" "t = [] \<or> \<not> isspace (hd t)"
  shows "title_of (ws1 @ w @ ws2 @ t) = takeWhile any_char t"
proof -
  let ?v = "ws1 @ w @ ws2 @ t"
  obtain a w' where w: "w = a # w'" using assms(3) by (cases w) auto
  obtain b ws2' where ws2: "ws2 = b # ws2'" using assms(5) by (cases ws2) auto
  have na: "\<not> isspace a" using assms(4) w by simp
  have sb: "isspace b" using assms(6) ws2 by simp
  have "dropWhile isspace ?v = dropWhile isspace (w @ ws2 @ t)"
    using assms(2) by (simp add: list_all_iff)
  then have r1: "dropWhile isspace ?v = w @ ws2 @ t" using na w by simp
  have len: "length (w @ ws2 @ t) \<noteq> length ?v" using assms(1) by simp
  have ex: "list_ex isspace (w @ ws2 @ t)" using sb ws2 by (simp add: list_ex_iff)
  have "dropWhile (\<lambda>ch. \<not> isspace ch) (w @ ws2 @ t) = dropWhile (\<lambda>ch. \<not> isspace ch) (ws2 @ t)"
    using assms(4) by (simp add: list_all_iff)
  then have d1: "dropWhile (\<lambda>ch. \<not> isspace ch) (w @ ws2 @ t) = ws2 @ t" using sb ws2 by simp
  have "dropWhile isspace (ws2 @ t) = dropWhile isspace t"
    using assms(6) by (simp add: list_all_iff)
  then have d2: "dropWhile isspace (ws2 @ t) = t" using assms(7) by (cases t) auto
  show ?thesis
    unfolding title_of_def title_after_def Let_def r1 d1 d2 using len ex by simp
qed

lemma first_caption_leftmost:
  "first_caption line = Some r \<Longrightarrow>
   \<exists>pre s. line = pre @ s \<and> caption_at s = Some r
     \<and> (\<forall>q. q \<noteq> [] \<and> suffix q pre \<longrightarrow> caption_at (q @ s) = None)"
proof (induction line)
  case Nil
  then have "[] = [] @ [] \<and> caption_at [] = Some r
      \<and> (\<forall>q. q \<noteq> [] \<and> suffix q [] \<longrightarrow> caption_at (q @ []) = None)"
    by simp
  then show ?case by (intro exI [of _ "[]"])
next
  case (Cons c s)
  show ?case
  proof (cases "caption_at (c # s)")
    case None
    then have "first_caption s = Some r" using Cons.prems by simp
    then obtain pre s' where s: "s = pre @ s'" and c: "caption_at s' = Some r"
      and l: "\<forall>q. q \<noteq> [] \<and> suffix q pre \<longrightarrow> caption_at (q @ s') = None"
      using Cons.IH by blast
    have "\<forall>q. q \<noteq> [] \<and> suffix q (c # pre) \<longrightarrow> caption_at (q @ s') = None"
    proof (intro allI impI)
      fix q assume q: "q \<noteq> [] \<and> suffix q (c # pre)"
      then have "q = c # pre \<or> suffix q pre" by (simp add: suffix_Cons)
      then show "caption_at (q @ s') = None"
      proof
        assume "q = c # pre"
        then show ?thesis using None s by simp
      next
        assume "suffix q pre"
        then show ?thesis using q l by blast
      qed
    qed
    then have "c # s = (c # pre) @ s' \<and> caption_at s' = Some r
        \<and> (\<forall>q. q \<noteq> [] \<and> suffix q (c # pre) \<longrightarrow> caption_at (q @ s') = None)"
      using s c by simp
    then show ?thesis by (intro exI [of _ "c # pre"] exI [of _ s'])
  next
    case (Some r')
    then have "c # s = [] @ (c # s) \<and> caption_at (c # s) = Some r
        \<and> (\<forall>q. q \<noteq> [] \<and> suffix q [] \<longrightarrow> caption_at (q @ (c # s)) = None)"
      using Cons.prems by simp
    then show ?thesis by (intro exI [of _ "[]"] exI [of _ "c # s"])
  qed
qed

lemma extract_line_record_leftmost:
  assumes "CHR 0x0A \<notin> set line" and "r \<in> set (extractTableInfo line)"
  shows "\<exists>pre ws rest. line = pre @ marker @ ws @ number r @ rest
           \<and> ws \<noteq> [] \<and> list_all isspace ws
           \<and> number r \<noteq> [] \<and> list_all digit_or_period (number r)
           \<and> (rest = [] \<or> \<not> digit_or_period (hd rest))
           \<and> (\<forall>pre' ws' tok' rest'.
                 line = pre' @ marker @ ws' @ tok' @ rest'
                 \<and> ws' \<noteq> [] \<and> list_all isspace ws'
                 \<and> tok' \<noteq> [] \<and> list_all digit_or_period tok'
                 \<longrightarrow> length pre \<le> length pre')"
proof -
  have "first_caption line \<noteq> None"
  proof
    assume "first_caption line = None"
    then have "extractTableInfo line = []" using assms(1) by (simp add: extract_line_cases)
    with assms(2) show False by simp
  qed
  then obtain i t where fc: "first_caption line = Some (i, t)" by auto
  then have r: "r = \<lparr>number = i, title = t\<rparr>"
    using assms by (simp add: extract_line_cases)
  from first_caption_leftmost [OF fc] obtain pre s where l: "line = pre @ s"
    and c: "caption_at s = Some (i, t)"
    and lm: "\<forall>q. q \<noteq> [] \<and> suffix q pre \<longrightarrow> caption_at (q @ s) = None"
    by blast
  from caption_at_SomeD [OF c] obtain ws rest where d:
    "s = marker @ ws @ i @ rest" "ws \<noteq> []" "list_all isspace ws" "i \<noteq> []"
    "list_all digit_or_period i" "rest = [] \<or> \<not> digit_or_period (hd rest)"
    by blast
  have left: "\<forall>pre' ws' tok' rest'.
                 line = pre' @ marker @ ws' @ tok' @ rest'
                 \<and> ws' \<noteq> [] \<and> list_all isspace ws'
                 \<and> tok' \<noteq> [] \<and> list_all digit_or_period tok'
                 \<longrightarrow> length pre \<le> length pre'"
  proof (intro allI impI, rule ccontr)
    fix pre' ws' tok' rest'
    assume "line = pre' @ marker @ ws' @ tok' @ rest'
                 \<and> ws' \<noteq> [] \<and> list_all isspace ws'
                 \<and> tok' \<noteq> [] \<and> list_all digit_or_period tok'"
    then have o: "line = pre' @ marker @ ws' @ tok' @ rest'" "ws' \<noteq> []" "list_all isspace ws'"
      "tok' \<noteq> []" "list_all digit_or_period tok'" by simp_all
    assume "\<not> length pre \<le> length pre'"
    then have lt: "length pre' < length pre" by simp
    let ?s' = "marker @ ws' @ tok' @ rest'"
    have eq: "pre @ s = pre' @ ?s'" using l o(1) by simp
    define q where "q = drop (length pre') pre"
    have q: "pre = pre' @ q"
    proof -
      have "take (length pre') (pre @ s) = take (length pre') (pre' @ ?s')" using eq by simp
      then have "take (length pre') pre = pre'" using lt by simp
      then show ?thesis unfolding q_def by (metis append_take_drop_id)
    qed
    then have qs: "q @ s = ?s'" using eq by simp
    have "q \<noteq> []" using lt q by auto
    moreover have "suffix q pre" using q by (auto simp: suffix_def)
    ultimately have "caption_at (q @ s) = None" using lm by blast
    moreover have "caption_at ?s' \<noteq> None" by (rule caption_at_intro [OF o(2-5)])
    ultimately show False using qs by simp
  qed
  have "line = pre @ marker @ ws @ number r @ rest" using l d(1) r by simp
  moreover have "number r \<noteq> []" "list_all digit_or_period (number r)"
    using d(4,5) r by simp_all
  ultimately show ?thesis
    using d(2,3,6) left by (intro exI [of _ pre] exI [of _ ws] exI [of _ rest] conjI)
qed

text \<open>Claim C7. The text is read line by line: the lines are the pieces of the text
  between its newlines, and the result is the concatenation, in order, of what each line
  gives. A line gives a record exactly when it is some text, the marker, a non-empty run
  of whitespace, a non-empty token of digits and periods, and a rest; it gives at most
  one record; the identifier of the record is such a token of the line, whole (what
  follows it is not a digit or a period), of the leftmost place of the line where the
  marker, whitespace and a token stand; and a line that does not contain the marker
  gives no record.\<close>

theorem captions_line_by_line:
  assumes "CHR 0x0A \<notin> set line"
  shows "extractTableInfo text = concat (map extractTableInfo (stream_lines text))
    \<and> concat (map (\<lambda>l. l @ [CHR 0x0A]) (stream_lines text))
        = (if text = [] \<or> last text = CHR 0x0A then text else text @ [CHR 0x0A])
    \<and> (\<forall>l\<in>set (stream_lines text). CHR 0x0A \<notin> set l)
    \<and> ((extractTableInfo line \<noteq> []) =
         (\<exists>pre ws tok rest. line = pre @ marker @ ws @ tok @ rest
            \<and> ws \<noteq> [] \<and> list_all isspace ws \<and> tok \<noteq> [] \<and> list_all digit_or_period tok))
    \<and> length (extractTableInfo line) \<le> 1
    \<and> (\<forall>r\<in>set (extractTableInfo line).
          \<exists>pre ws rest. line = pre @ marker @ ws @ number r @ rest
            \<and> ws \<noteq> [] \<and> list_all isspace ws
            \<and> number r \<noteq> [] \<and> list_all digit_or_period (number r)
            \<and> (rest = [] \<or> \<not> digit_or_period (hd rest))
            \<and> (\<forall>pre' ws' tok' rest'.
                  line = pre' @ marker @ ws' @ tok' @ rest'
                  \<and> ws' \<noteq> [] \<and> list_all isspace ws'
                  \<and> tok' \<noteq> [] \<and> list_all digit_or_period tok'
                  \<longrightarrow> length pre \<le> length pre'))
    \<and> (\<not> sublist marker line \<longrightarrow> extractTableInfo line = [])"
proof -
  have r: "\<forall>r\<in>set (extractTableInfo line).
          \<exists>pre ws rest. line = pre @ marker @ ws @ number r @ rest
            \<and> ws \<noteq> [] \<and> list_all isspace ws
            \<and> number r \<noteq> [] \<and> list_all digit_or_period (number r)
            \<and> (rest = [] \<or> \<not> digit_or_period (hd rest))
            \<and> (\<forall>pre' ws' tok' rest'.
                  line = pre' @ marker @ ws' @ tok' @ rest'
                  \<and> ws' \<noteq> [] \<and> list_all isspace ws'
                  \<and> tok' \<noteq> [] \<and> list_all digit_or_period tok'
                  \<longrightarrow> length pre \<le> length pre')"
    by (intro ballI extract_line_record_leftmost [OF assms])
  have n: "\<forall>l\<in>set (stream_lines text). CHR 0x0A \<notin> set l"
    using stream_lines_no_newline by blast
  have m: "\<not> sublist marker line \<longrightarrow> extractTableInfo line = []"
    using extract_line_no_marker [OF assms] by blast
  show ?thesis
    using extract_lines [of "text"] stream_lines_rejoin [of "text"] n
      extract_line_nonempty_iff [OF assms] extract_line_le1 [OF assms] r m
    by (intro conjI)
qed

theorem captions_line_by_line_witness:
  "CHR 0x0A \<notin> set caption_P2
   \<and> stream_lines (''see below'' @ [CHR 0x0A] @ caption_P2 @ [CHR 0x0A]) = [''see below'', caption_P2]
   \<and> extractTableInfo (''see below'' @ [CHR 0x0A] @ caption_P2 @ [CHR 0x0A])
       = extractTableInfo ''see below'' @ extractTableInfo caption_P2
   \<and> extractTableInfo caption_P2 = [\<lparr>number = ''5'', title = []\<rparr>]
   \<and> (\<exists>pre ws tok rest. caption_P2 = pre @ marker @ ws @ tok @ rest
         \<and> ws \<noteq> [] \<and> list_all isspace ws \<and> tok \<noteq> [] \<and> list_all digit_or_period tok)
   \<and> CHR 0x0A \<notin> set ''see below'' \<and> \<not> sublist marker ''see below''
   \<and> extractTableInfo ''see below'' = []"
proof -
  have n1: "CHR 0x0A \<notin> set caption_P2" by code_simp
  have n2: "CHR 0x0A \<notin> set ''see below''" by code_simp
  have sl: "stream_lines (''see below'' @ [CHR 0x0A] @ caption_P2 @ [CHR 0x0A]) = [''see below'', caption_P2]"
    by code_simp
  have e: "extractTableInfo caption_P2 = [\<lparr>number = ''5'', title = []\<rparr>]" by code_simp
  have m: "\<not> sublist marker ''see below''" by code_simp
  note a = captions_line_by_line [OF n1, of "''see below'' @ [CHR 0x0A] @ caption_P2 @ [CHR 0x0A]"]
  note b = captions_line_by_line [OF n2, of "[]"]
  have "extractTableInfo (''see below'' @ [CHR 0x0A] @ caption_P2 @ [CHR 0x0A])
       = extractTableInfo ''see below'' @ extractTableInfo caption_P2"
    using a sl by simp
  moreover have "\<exists>pre ws tok rest. caption_P2 = pre @ marker @ ws @ tok @ rest
         \<and> ws \<noteq> [] \<and> list_all isspace ws \<and> tok \<noteq> [] \<and> list_all digit_or_period tok"
    using a e by simp
  moreover have "extractTableInfo ''see below'' = []"
    using b m by blast
  ultimately show ?thesis using n1 n2 sl e m by blast
qed

text \<open>Claim C2, as the claim states it, fails: in the line of property P1 the text
  after the identifier \<open>3.1\<close> is three spaces and two words, and the title of the
  record is the second word, which is neither that text nor that text trimmed.\<close>

theorem title_not_whole_text_counterexample:
  "extractTableInfo caption_P1 = [\<lparr>number = ''3.1'', title = word_parameters\<rparr>]
   \<and> caption_P1 = marker @ '' '' @ ''3.1'' @ (''   '' @ word_list @ '' '' @ word_parameters)
   \<and> word_parameters \<noteq> ''   '' @ word_list @ '' '' @ word_parameters
   \<and> word_parameters \<noteq> trim (''   '' @ word_list @ '' '' @ word_parameters)"
  by code_simp

text \<open>Claim C2, amended. For every line that gives a record, the line is some text, the
  marker, whitespace, the identifier and a rest that does not go on with a digit or a
  period, and the title is \<open>title_of\<close> of that rest. The title is the empty string when
  nothing follows the identifier; and when the rest is a run of whitespace, a word, a run
  of whitespace and a remainder, the title is the remainder up to its first line
  terminator: the first word after the identifier is not part of the title.\<close>

theorem title_follows_first_word:
  assumes "CHR 0x0A \<notin> set line" and "r \<in> set (extractTableInfo line)"
  shows "\<exists>pre ws rest. line = pre @ marker @ ws @ number r @ rest
           \<and> ws \<noteq> [] \<and> list_all isspace ws
           \<and> (rest = [] \<or> \<not> digit_or_period (hd rest))
           \<and> title r = title_of rest
           \<and> (rest = [] \<longrightarrow> title r = [])
           \<and> (\<forall>ws1 w ws2 t.
                 rest = ws1 @ w @ ws2 @ t
                 \<and> ws1 \<noteq> [] \<and> list_all isspace ws1
                 \<and> w \<noteq> [] \<and> list_all (\<lambda>ch. \<not> isspace ch) w
                 \<and> ws2 \<noteq> [] \<and> list_all isspace ws2
                 \<and> (t = [] \<or> \<not> isspace (hd t))
                 \<longrightarrow> title r = takeWhile any_char t)"
proof -
  from extract_line_record [OF assms] obtain pre ws rest where
    l: "line = pre @ marker @ ws @ number r @ rest" and ws: "ws \<noteq> []" "list_all isspace ws"
    and m: "rest = [] \<or> \<not> digit_or_period (hd rest)" and t: "title r = title_of rest"
    by blast
  have e: "rest = [] \<longrightarrow> title r = []"
    using t by (simp add: title_of_def title_after_def)
  have "\<forall>ws1 w ws2 t.
          rest = ws1 @ w @ ws2 @ t
          \<and> ws1 \<noteq> [] \<and> list_all isspace ws1
          \<and> w \<noteq> [] \<and> list_all (\<lambda>ch. \<not> isspace ch) w
          \<and> ws2 \<noteq> [] \<and> list_all isspace ws2
          \<and> (t = [] \<or> \<not> isspace (hd t))
          \<longrightarrow> title r = takeWhile any_char t"
    using t title_of_after_word by metis
  with l ws m t e show ?thesis by blast
qed

theorem title_follows_first_word_witness:
  "CHR 0x0A \<notin> set caption_P1
   \<and> \<lparr>number = ''3.1'', title = word_parameters\<rparr> \<in> set (extractTableInfo caption_P1)
   \<and> (\<exists>pre ws rest. caption_P1 = pre @ marker @ ws @ ''3.1'' @ rest
         \<and> ws \<noteq> [] \<and> list_all isspace ws
         \<and> (rest = [] \<or> \<not> digit_or_period (hd rest))
         \<and> word_parameters = title_of rest)"
proof -
  have n: "CHR 0x0A \<notin> set caption_P1" by code_simp
  have r: "\<lparr>number = ''3.1'', title = word_parameters\<rparr> \<in> set (extractTableInfo caption_P1)"
    by code_simp
  from title_follows_first_word [OF n r] show ?thesis using n r by auto
qed








end
